theory Spec2Isabelle
  imports Main "HOL-Library.AList" "HOL-Library.Sublist"
begin

section \<open>The git watcher IPC bridge (\<^verbatim>\<open>src/unnamed/part_000\<close>)\<close>

subsection \<open>Data\<close>

text \<open>
  An Electron \<^verbatim>\<open>BrowserWindow\<close> as far as the bridge looks at it: its numeric \<^verbatim>\<open>id\<close>,
  what \<^verbatim>\<open>isDestroyed()\<close> answers, and whether \<^verbatim>\<open>webContents.send\<close> raises when called.
\<close>

record browser_window =
  bw_id :: nat
  isDestroyed :: bool
  sendThrows :: bool

text \<open>
  The value type of \<^verbatim>\<open>activeSubscriptions\<close>. The \<^verbatim>\<open>unsubscribe\<close> closure handed out by the
  registry is identified by a number; invoking it is an effect recorded in the trace.
\<close>

record subscription =
  windowId :: nat
  unsubscribe :: nat

record git_watch_event =
  worktreePath :: string
  changes :: "string list"

text \<open>
  Calls that leave the bridge, in the order they are made: to the watcher registry, to the
  cache, and to the window's \<^verbatim>\<open>webContents.send("git:status-changed", payload)\<close>
  (\<open>Sent\<close> when the call returned, \<open>SendThrew\<close> when it raised and the \<^verbatim>\<open>catch\<close> swallowed it).
\<close>

datatype effect =
    RegistrySubscribe string
  | CallUnsubscribe nat
  | DisposeAll
  | InvalidateStatus string
  | InvalidateParsedDiff string
  | Sent nat string "string list"
  | SendThrew nat string "string list"

datatype error = WatchOpenFailure

datatype handler_result = Resolved | Rejected error

text \<open>
  The state the bridge works on. \<open>activeSubscriptions\<close> is the module-level \<^verbatim>\<open>Map\<close>, kept as
  an association list in insertion order (the order a JavaScript \<^verbatim>\<open>Map\<close> iterates in).
  \<open>allWindows\<close> is Electron's table of windows, which \<^verbatim>\<open>BrowserWindow.fromId\<close> searches.
  \<open>statusSlot\<close> and \<open>parsedDiffSlot\<close> are the two cache slots per worktree.
  \<open>pending\<close> lists the subscribe handlers suspended at their \<^verbatim>\<open>await\<close>
  (worktree path and window id they captured). \<open>trace\<close> is the list of effects so far.
\<close>

record world =
  activeSubscriptions :: "(string \<times> subscription) list"
  allWindows :: "browser_window list"
  statusSlot :: "string \<rightharpoonup> nat"
  parsedDiffSlot :: "string \<rightharpoonup> nat"
  pending :: "(string \<times> nat) list"
  trace :: "effect list"

definition initial_world :: "browser_window list \<Rightarrow> world" where
  "initial_world ws =
     \<lparr>activeSubscriptions = [], allWindows = ws, statusSlot = Map.empty,
      parsedDiffSlot = Map.empty, pending = [], trace = []\<rparr>"

text \<open>\<^verbatim>\<open>BrowserWindow.fromId(id)\<close>: the window with that id, or \<^verbatim>\<open>null\<close>.\<close>

definition fromId :: "world \<Rightarrow> nat \<Rightarrow> browser_window option" where
  "fromId s k = find (\<lambda>w. bw_id w = k) (allWindows s)"

text \<open>\<^verbatim>\<open>!worktreePath\<close> on a value of the declared type \<^verbatim>\<open>string\<close>: only the empty string is falsy.\<close>

definition falsy :: "string \<Rightarrow> bool" where
  "falsy path = (path = [])"

definition has :: "(string \<times> subscription) list \<Rightarrow> string \<Rightarrow> bool" where
  "has m k = (map_of m k \<noteq> None)"

subsection \<open>The cache's invalidation entry points\<close>

text \<open>
  Modelled from the spec: \<^verbatim>\<open>gitCache.invalidateStatus\<close> and \<^verbatim>\<open>gitCache.invalidateParsedDiff\<close>
  (module \<^verbatim>\<open>../cache\<close>, not among the sources). Section 4.2: each marks its slot for that
  worktree absent, is idempotent, and is safe to call when the slot is already absent.
\<close>

definition invalidateStatus :: "string \<Rightarrow> world \<Rightarrow> world" where
  "invalidateStatus p s =
     s\<lparr>statusSlot := (statusSlot s)(p := None), trace := trace s @ [InvalidateStatus p]\<rparr>"

definition invalidateParsedDiff :: "string \<Rightarrow> world \<Rightarrow> world" where
  "invalidateParsedDiff p s =
     s\<lparr>parsedDiffSlot := (parsedDiffSlot s)(p := None), trace := trace s @ [InvalidateParsedDiff p]\<rparr>"

subsection \<open>The watch-event callback (lines 39--62)\<close>

text \<open>The \<^verbatim>\<open>try { targetWindow.webContents.send(...) } catch { }\<close> block.\<close>

definition send_status_changed :: "browser_window \<Rightarrow> git_watch_event \<Rightarrow> world \<Rightarrow> world" where
  "send_status_changed targetWindow watchEvent s =
     (if sendThrows targetWindow
      then s\<lparr>trace := trace s @ [SendThrew (bw_id targetWindow) (worktreePath watchEvent) (changes watchEvent)]\<rparr>
      else s\<lparr>trace := trace s @ [Sent (bw_id targetWindow) (worktreePath watchEvent) (changes watchEvent)]\<rparr>)"

text \<open>
  The closure passed to \<^verbatim>\<open>gitWatcherRegistry.subscribe\<close>. Its first argument is the
  \<^verbatim>\<open>worktreePath\<close> the closure captured; the lookup and both invalidations use it.
\<close>

definition callback :: "string \<Rightarrow> git_watch_event \<Rightarrow> world \<Rightarrow> world" where
  "callback path watchEvent s =
     (case map_of (activeSubscriptions s) path of
        None \<Rightarrow> s
      | Some sub \<Rightarrow>
          (case fromId s (windowId sub) of
             None \<Rightarrow> s
           | Some targetWindow \<Rightarrow>
               if isDestroyed targetWindow then s
               else send_status_changed targetWindow watchEvent
                      (invalidateParsedDiff path (invalidateStatus path s))))"

subsection \<open>git:subscribe-watcher (lines 20--70)\<close>

text \<open>
  The handler up to its \<^verbatim>\<open>await\<close>: either it has returned, or it has called the registry
  and is suspended, holding the worktree path and the window id. The first argument is
  what \<^verbatim>\<open>BrowserWindow.fromWebContents(event.sender)\<close> yields (\<open>None\<close> for \<^verbatim>\<open>null\<close>).
\<close>

datatype subscribe_progress = Returned | Awaiting string nat

definition handleSubscribe_start ::
    "browser_window option \<Rightarrow> string \<Rightarrow> world \<Rightarrow> subscribe_progress \<times> world" where
  "handleSubscribe_start sender path s =
     (if falsy path then (Returned, s)
      else if has (activeSubscriptions s) path then (Returned, s)
      else (case sender of
              None \<Rightarrow> (Returned, s)
            | Some subscribingWindow \<Rightarrow>
                if isDestroyed subscribingWindow then (Returned, s)
                else (Awaiting path (bw_id subscribingWindow),
                      s\<lparr>pending := (path, bw_id subscribingWindow) # pending s,
                        trace := trace s @ [RegistrySubscribe path]\<rparr>)))"

text \<open>
  The handler from the \<^verbatim>\<open>await\<close> on. The registry's promise either rejects (the handler
  rejects with it, nothing is recorded) or resolves with the unsubscribe capability,
  which \<^verbatim>\<open>activeSubscriptions.set\<close> records together with the window id.
\<close>

definition handleSubscribe_resume ::
    "string \<Rightarrow> nat \<Rightarrow> error + nat \<Rightarrow> world \<Rightarrow> handler_result \<times> world" where
  "handleSubscribe_resume path wid reply s =
     (let s' = s\<lparr>pending := remove1 (path, wid) (pending s)\<rparr> in
      case reply of
        Inl e \<Rightarrow> (Rejected e, s')
      | Inr unsub \<Rightarrow>
          (Resolved,
           s'\<lparr>activeSubscriptions :=
                 AList.update path \<lparr>windowId = wid, unsubscribe = unsub\<rparr> (activeSubscriptions s')\<rparr>))"

text \<open>The whole handler, when nothing else runs while it is suspended.\<close>

definition handleSubscribe ::
    "browser_window option \<Rightarrow> string \<Rightarrow> error + nat \<Rightarrow> world \<Rightarrow> handler_result \<times> world" where
  "handleSubscribe sender path reply s =
     (case handleSubscribe_start sender path s of
        (Returned, s') \<Rightarrow> (Resolved, s')
      | (Awaiting p wid, s') \<Rightarrow> handleSubscribe_resume p wid reply s')"

subsection \<open>git:unsubscribe-watcher (lines 73--87)\<close>

definition handleUnsubscribe :: "string \<Rightarrow> world \<Rightarrow> handler_result \<times> world" where
  "handleUnsubscribe path s =
     (if falsy path then (Resolved, s)
      else (case map_of (activeSubscriptions s) path of
              Some sub \<Rightarrow>
                (Resolved,
                 s\<lparr>trace := trace s @ [CallUnsubscribe (unsubscribe sub)],
                   activeSubscriptions := AList.delete path (activeSubscriptions s)\<rparr>)
            | None \<Rightarrow> (Resolved, s)))"

subsection \<open>cleanupWindowSubscriptions (lines 94--102)\<close>

text \<open>
  The \<^verbatim>\<open>for ... of\<close> loop over the map. The second argument is the part of the map the
  iterator has not reached yet; the body deletes only the entry it is visiting, so the
  entries ahead are those of the map when the loop started.
\<close>

fun cleanup_loop :: "nat \<Rightarrow> (string \<times> subscription) list \<Rightarrow> world \<Rightarrow> world" where
  "cleanup_loop wid [] s = s"
| "cleanup_loop wid ((path, sub) # ahead) s =
     (if windowId sub = wid
      then cleanup_loop wid ahead
             (s\<lparr>trace := trace s @ [CallUnsubscribe (unsubscribe sub)],
                activeSubscriptions := AList.delete path (activeSubscriptions s)\<rparr>)
      else cleanup_loop wid ahead s)"

definition cleanupWindowSubscriptions :: "nat \<Rightarrow> world \<Rightarrow> world" where
  "cleanupWindowSubscriptions wid s = cleanup_loop wid (activeSubscriptions s) s"

subsection \<open>cleanupGitWatchers (lines 108--119)\<close>

fun unsubscribe_each :: "subscription list \<Rightarrow> world \<Rightarrow> world" where
  "unsubscribe_each [] s = s"
| "unsubscribe_each (sub # subs) s =
     unsubscribe_each subs (s\<lparr>trace := trace s @ [CallUnsubscribe (unsubscribe sub)]\<rparr>)"

text \<open>
  Lines 110--114: every subscription's capability is invoked, then the map is cleared.
  This is the state in which \<^verbatim>\<open>disposeAll\<close> is called.
\<close>

definition unsubscribe_all_and_clear :: "world \<Rightarrow> world" where
  "unsubscribe_all_and_clear s =
     (let subscriptions = map snd (activeSubscriptions s);
          s1 = unsubscribe_each subscriptions s
      in s1\<lparr>activeSubscriptions := []\<rparr>)"

text \<open>
  The routine up to its \<^verbatim>\<open>await\<close> (lines 110--117): the state of lines 110--114, in
  which \<^verbatim>\<open>gitWatcherRegistry.disposeAll()\<close> is called (\<open>DisposeAll\<close>); the routine is then
  suspended until the registry's promise settles.
\<close>

definition cleanupGitWatchers_start :: "world \<Rightarrow> world" where
  "cleanupGitWatchers_start s =
     (let s2 = unsubscribe_all_and_clear s
      in s2\<lparr>trace := trace s2 @ [DisposeAll]\<rparr>)"

text \<open>The routine from the \<^verbatim>\<open>await\<close> on (line 118): it only logs.\<close>

definition cleanupGitWatchers_resume :: "world \<Rightarrow> world" where
  "cleanupGitWatchers_resume s = s"

subsection \<open>Runs of the bridge\<close>

text \<open>
  Everything that can happen to the bridge between two turns of the event loop: a
  subscribe request reaching its \<^verbatim>\<open>await\<close>, a suspended subscribe handler being resumed
  with the registry's answer, an unsubscribe request, the registry invoking a listener,
  a window-closed notification, the shutdown routine reaching its \<^verbatim>\<open>await\<close> and being
  resumed from it, and the environment changing Electron's window table or populating a
  cache slot. A resume applies only to a handler that is suspended:
  its path and window id are in \<open>pending\<close>. The registry may invoke a listener at any
  time after it was handed over, also while the subscribe handler is still suspended.
\<close>

datatype bridge_op =
    SubscribeStart "browser_window option" string
  | SubscribeResume string nat "error + nat"
  | UnsubscribeRequest string
  | WatchEvent string git_watch_event
  | WindowClosed nat
  | ShutdownStart
  | ShutdownResume
  | Electron "browser_window list"
  | PopulateStatus string nat
  | PopulateParsedDiff string nat

fun exec :: "bridge_op \<Rightarrow> world \<Rightarrow> world" where
  "exec (SubscribeStart sender path) s = snd (handleSubscribe_start sender path s)"
| "exec (SubscribeResume path wid reply) s =
     (if (path, wid) \<in> set (pending s) then snd (handleSubscribe_resume path wid reply s) else s)"
| "exec (UnsubscribeRequest path) s = snd (handleUnsubscribe path s)"
| "exec (WatchEvent path ev) s = callback path ev s"
| "exec (WindowClosed wid) s = cleanupWindowSubscriptions wid s"
| "exec ShutdownStart s = cleanupGitWatchers_start s"
| "exec ShutdownResume s = cleanupGitWatchers_resume s"
| "exec (Electron ws) s = s\<lparr>allWindows := ws\<rparr>"
| "exec (PopulateStatus path v) s = s\<lparr>statusSlot := (statusSlot s)(path \<mapsto> v)\<rparr>"
| "exec (PopulateParsedDiff path v) s = s\<lparr>parsedDiffSlot := (parsedDiffSlot s)(path \<mapsto> v)\<rparr>"

fun run :: "bridge_op list \<Rightarrow> world \<Rightarrow> world" where
  "run [] s = s"
| "run (x # xs) s = run xs (exec x s)"

text \<open>
  The whole of \<^verbatim>\<open>cleanupGitWatchers\<close>, from its call to its completion. The first
  argument lists what the event loop ran while the routine was suspended at
  \<^verbatim>\<open>await disposeAll()\<close>.
\<close>

definition cleanupGitWatchers :: "bridge_op list \<Rightarrow> world \<Rightarrow> world" where
  "cleanupGitWatchers during s =
     cleanupGitWatchers_resume (run during (cleanupGitWatchers_start s))"

text \<open>A suspended subscribe handler resumed with the registry's capability.\<close>

fun records_subscription :: "bridge_op \<Rightarrow> bool" where
  "records_subscription (SubscribeResume path wid (Inr unsub)) = True"
| "records_subscription x = False"

text \<open>The destination windows of the pushes that went through, in order.\<close>

fun pushes :: "effect list \<Rightarrow> nat list" where
  "pushes [] = []"
| "pushes (Sent w p c # es) = w # pushes es"
| "pushes (e # es) = pushes es"

text \<open>What holds of the subscription table in every state a run reaches.\<close>

definition table_ok :: "world \<Rightarrow> bool" where
  "table_ok s =
     (distinct (map fst (activeSubscriptions s)) \<and>
      [] \<notin> set (map fst (activeSubscriptions s)) \<and>
      [] \<notin> set (map fst (pending s)))"

section \<open>The window manager (\<^verbatim>\<open>src/main/windows/window-manager.ts\<close>)\<close>

text \<open>
  The fields of \<^verbatim>\<open>WindowManager\<close>. \<open>windows\<close> holds the keys of the \<^verbatim>\<open>Map<number, BrowserWindow>\<close>
  in insertion order (the values are Electron's window objects, which live in
  \<open>allWindows\<close>); \<open>windowIdMap\<close> is the \<^verbatim>\<open>Map<number, string>\<close> as an association list.
  The counter is a natural number: JavaScript numbers count exactly far beyond any
  number of windows a process opens.
\<close>

record window_manager =
  windows :: "nat list"
  focusedWindowId :: "nat option"
  mainWindowId :: "nat option"
  windowIdMap :: "(nat \<times> string) list"
  nextSecondaryId :: nat

definition initial_manager :: window_manager where
  "initial_manager =
     \<lparr>windows = [], focusedWindowId = None, mainWindowId = None, windowIdMap = [],
      nextSecondaryId = 2\<rparr>"

text \<open>The decimal rendering of a number inside a template literal.\<close>

definition digit_char :: "nat \<Rightarrow> char" where
  "digit_char d = ''0123456789'' ! d"

fun decimal :: "nat \<Rightarrow> string" where
  "decimal n = (if n < 10 then [digit_char n] else decimal (n div 10) @ [digit_char (n mod 10)])"

text \<open>\<^verbatim>\<open>this.windows.set(electronId, window)\<close> on the keys: a new key goes last.\<close>

definition windows_set :: "nat \<Rightarrow> nat list \<Rightarrow> nat list" where
  "windows_set k ks = (if k \<in> set ks then ks else ks @ [k])"

text \<open>\<^verbatim>\<open>register(window)\<close>: the stable id it returns, and the manager afterwards.\<close>

definition register :: "browser_window \<Rightarrow> window_manager \<Rightarrow> string \<times> window_manager" where
  "register window m =
     (let electronId = bw_id window;
          m1 = m\<lparr>windows := windows_set electronId (windows m)\<rparr>;
          (stableId, m2) =
            (if mainWindowId m1 = None
             then (''main'', m1\<lparr>mainWindowId := Some electronId\<rparr>)
             else (''window-'' @ decimal (nextSecondaryId m1),
                   m1\<lparr>nextSecondaryId := nextSecondaryId m1 + 1\<rparr>));
          m3 = m2\<lparr>windowIdMap := AList.update electronId stableId (windowIdMap m2)\<rparr>;
          m4 = (if length (windows m3) = 1 then m3\<lparr>focusedWindowId := Some electronId\<rparr> else m3)
      in (stableId, m4))"

text \<open>The \<^verbatim>\<open>"focus"\<close> listener installed by \<^verbatim>\<open>register\<close>.\<close>

definition on_focus :: "nat \<Rightarrow> window_manager \<Rightarrow> window_manager" where
  "on_focus electronId m = m\<lparr>focusedWindowId := Some electronId\<rparr>"

text \<open>
  The \<^verbatim>\<open>"closed"\<close> listener installed by \<^verbatim>\<open>register\<close> (lines 42--59): first the bridge's
  cleanup for that window, then the manager's own bookkeeping.
\<close>

definition closed_bookkeeping :: "nat \<Rightarrow> window_manager \<Rightarrow> window_manager" where
  "closed_bookkeeping electronId m =
     (let m1 = m\<lparr>windows := removeAll electronId (windows m),
                 windowIdMap := AList.delete electronId (windowIdMap m)\<rparr>;
          m2 = (if focusedWindowId m1 = Some electronId then m1\<lparr>focusedWindowId := None\<rparr> else m1)
      in if mainWindowId m2 = Some electronId
         then m2\<lparr>mainWindowId := (case windows m2 of [] \<Rightarrow> None | k # ks \<Rightarrow> Some k)\<rparr>
         else m2)"

definition on_closed :: "nat \<Rightarrow> window_manager \<times> world \<Rightarrow> window_manager \<times> world" where
  "on_closed electronId ms =
     (closed_bookkeeping electronId (fst ms), cleanupWindowSubscriptions electronId (snd ms))"

definition unregister :: "browser_window \<Rightarrow> window_manager \<Rightarrow> window_manager" where
  "unregister window m =
     (let m1 = m\<lparr>windows := removeAll (bw_id window) (windows m)\<rparr>
      in if focusedWindowId m1 = Some (bw_id window) then m1\<lparr>focusedWindowId := None\<rparr> else m1)"

definition getStableId :: "browser_window \<Rightarrow> window_manager \<Rightarrow> string" where
  "getStableId window m =
     (case map_of (windowIdMap m) (bw_id window) of Some sid \<Rightarrow> sid | None \<Rightarrow> ''main'')"

text \<open>
  Runs of the application: calls of the manager, the two listeners firing, and bridge
  operations in between.
\<close>

datatype app_op =
    Register browser_window
  | Focus nat
  | Closed nat
  | Unregister browser_window
  | Bridge bridge_op

fun app_exec :: "app_op \<Rightarrow> window_manager \<times> world \<Rightarrow> window_manager \<times> world" where
  "app_exec (Register w) (m, s) = (snd (register w m), s)"
| "app_exec (Focus k) (m, s) = (on_focus k m, s)"
| "app_exec (Closed k) (m, s) = on_closed k (m, s)"
| "app_exec (Unregister w) (m, s) = (unregister w m, s)"
| "app_exec (Bridge x) (m, s) = (m, exec x s)"

fun app_run :: "app_op list \<Rightarrow> window_manager \<times> world \<Rightarrow> window_manager \<times> world" where
  "app_run [] ms = ms"
| "app_run (x # xs) ms = app_run xs (app_exec x ms)"

fun is_unregister :: "app_op \<Rightarrow> bool" where
  "is_unregister (Unregister w) = True"
| "is_unregister x = False"

text \<open>The stable ids handed out by the registrations of a run, in order.\<close>

fun stable_ids :: "app_op list \<Rightarrow> window_manager \<times> world \<Rightarrow> string list" where
  "stable_ids [] ms = []"
| "stable_ids (Register w # xs) ms =
     fst (register w (fst ms)) # stable_ids xs (app_exec (Register w) ms)"
| "stable_ids (x # xs) ms = stable_ids xs (app_exec x ms)"

text \<open>What holds of the manager in every state a run reaches.\<close>

definition secondary_below :: "nat \<Rightarrow> string \<Rightarrow> bool" where
  "secondary_below n sid = (\<exists>k. 2 \<le> k \<and> k < n \<and> sid = ''window-'' @ decimal k)"

definition manager_ok :: "window_manager \<Rightarrow> bool" where
  "manager_ok m =
     (distinct (map fst (windowIdMap m)) \<and>
      distinct (map snd (windowIdMap m)) \<and>
      (\<forall>(k, sid) \<in> set (windowIdMap m).
          (sid = ''main'' \<and> mainWindowId m = Some k) \<or> secondary_below (nextSecondaryId m) sid) \<and>
      set (windows m) \<subseteq> set (map fst (windowIdMap m)) \<and>
      (mainWindowId m = None \<longrightarrow> windows m = []) \<and>
      2 \<le> nextSecondaryId m)"

section \<open>The theme loader's path check (\<^verbatim>\<open>src/main/lib/vscode-theme-scanner.ts\<close>)\<close>

subsection \<open>Node's \<^verbatim>\<open>path\<close> module on POSIX\<close>

text \<open>
  \<^verbatim>\<open>path.sep\<close>, \<^verbatim>\<open>path.normalize\<close> and \<^verbatim>\<open>path.join\<close> belong to the Node runtime. They are
  written here as Node's POSIX implementation computes them: the path is cut at every
  \<^verbatim>\<open>/\<close>; empty segments and \<^verbatim>\<open>.\<close> are dropped; \<^verbatim>\<open>..\<close> removes the segment before it, is
  dropped at the root of an absolute path and kept at the front of a relative one; a
  trailing separator is kept; the empty path becomes \<^verbatim>\<open>.\<close>.
\<close>

definition sep :: string where
  "sep = ''/''"

fun split_sep :: "string \<Rightarrow> string list" where
  "split_sep [] = [[]]"
| "split_sep (c # cs) =
     (if c = CHR ''/'' then [] # split_sep cs
      else (case split_sep cs of
              seg # segs \<Rightarrow> (c # seg) # segs
            | [] \<Rightarrow> [[c]]))"

fun normalizeString :: "bool \<Rightarrow> string list \<Rightarrow> string list \<Rightarrow> string list" where
  "normalizeString allowAboveRoot [] res = res"
| "normalizeString allowAboveRoot (seg # segs) res =
     (if seg = [] \<or> seg = ''.'' then normalizeString allowAboveRoot segs res
      else if seg = ''..'' then
        (if res \<noteq> [] \<and> last res \<noteq> ''..'' then normalizeString allowAboveRoot segs (butlast res)
         else if allowAboveRoot then normalizeString allowAboveRoot segs (res @ [''..''])
         else normalizeString allowAboveRoot segs res)
      else normalizeString allowAboveRoot segs (res @ [seg]))"

fun join_sep :: "string list \<Rightarrow> string" where
  "join_sep [] = []"
| "join_sep [x] = x"
| "join_sep (x # y # zs) = x @ ''/'' @ join_sep (y # zs)"

definition normalize :: "string \<Rightarrow> string" where
  "normalize path =
     (if path = [] then ''.''
      else
        (let isAbsolute = (hd path = CHR ''/'');
             trailingSeparator = (last path = CHR ''/'');
             p = join_sep (normalizeString (\<not> isAbsolute) (split_sep path) [])
         in if p = [] then (if isAbsolute then ''/'' else if trailingSeparator then ''./'' else ''.'')
            else (if isAbsolute then ''/'' else []) @ p @ (if trailingSeparator then ''/'' else [])))"

definition path_join :: "string list \<Rightarrow> string" where
  "path_join parts =
     (let joined = join_sep (filter (\<lambda>part. part \<noteq> []) parts)
      in if joined = [] then ''.'' else normalize joined)"

subsection \<open>The vscode:load-theme handler (lines 282--302)\<close>

datatype EditorSource = VSCode | VSCodeInsiders | Cursor | Windsurf

text \<open>\<^verbatim>\<open>EXTENSION_PATHS\<close> (lines 51--60); the argument is what \<^verbatim>\<open>os.homedir()\<close> returns.\<close>

definition EXTENSION_PATHS :: "string \<Rightarrow> (string \<times> EditorSource) list" where
  "EXTENSION_PATHS home =
     [(path_join [home, ''.vscode'', ''extensions''], VSCode),
      (path_join [home, ''.vscode-insiders'', ''extensions''], VSCodeInsiders),
      (path_join [home, ''.cursor'', ''extensions''], Cursor),
      (path_join [home, ''.windsurf'', ''extensions''], Windsurf)]"

text \<open>\<^verbatim>\<open>startsWith\<close> is \<^const>\<open>prefix\<close> on strings.\<close>

definition isAllowedPath :: "string \<Rightarrow> string \<Rightarrow> bool" where
  "isAllowedPath home themePath =
     (let normalizedPath = normalize themePath
      in list_ex (\<lambda>(allowedDir, source).
                    let normalizedAllowed = normalize allowedDir
                    in prefix (normalizedAllowed @ sep) normalizedPath \<or>
                       prefix normalizedAllowed normalizedPath)
           (EXTENSION_PATHS home))"

datatype theme_error = NotWithinAllowedDirectories

text \<open>
  The handler up to the call of \<^verbatim>\<open>loadThemeFromPath\<close>: it raises, or hands the
  normalized path on to be read from disk.
\<close>

definition load_theme_guard :: "string \<Rightarrow> string \<Rightarrow> theme_error + string" where
  "load_theme_guard home themePath =
     (if \<not> isAllowedPath home themePath then Inl NotWithinAllowedDirectories
      else Inr (normalize themePath))"

text \<open>
  What it means for a path to reside under a directory: segment by segment, the
  directory's normalized path is the beginning of the path's.
\<close>

definition path_segments :: "string \<Rightarrow> string list" where
  "path_segments p = filter (\<lambda>seg. seg \<noteq> []) (split_sep (normalize p))"

definition resides_under :: "string \<Rightarrow> string \<Rightarrow> bool" where
  "resides_under dir p = prefix (path_segments dir) (path_segments p)"

section \<open>Example data\<close>

definition winA :: browser_window where
  "winA = \<lparr>bw_id = 1, isDestroyed = False, sendThrows = False\<rparr>"

definition winB :: browser_window where
  "winB = \<lparr>bw_id = 2, isDestroyed = False, sendThrows = False\<rparr>"

definition winC :: browser_window where
  "winC = \<lparr>bw_id = 3, isDestroyed = False, sendThrows = False\<rparr>"

definition winD :: browser_window where
  "winD = \<lparr>bw_id = 4, isDestroyed = False, sendThrows = False\<rparr>"

definition index_changed :: git_watch_event where
  "index_changed = \<lparr>worktreePath = ''/repo'', changes = [''index'']\<rparr>"

text \<open>Window 1 has subscribed to \<^verbatim>\<open>/repo\<close>, and both cache slots of \<^verbatim>\<open>/repo\<close> are populated.\<close>

definition subscribed_A :: world where
  "subscribed_A =
     run [SubscribeStart (Some winA) ''/repo'', SubscribeResume ''/repo'' 1 (Inr 7),
          PopulateStatus ''/repo'' 5, PopulateParsedDiff ''/repo'' 6]
       (initial_world [winA, winB])"

text \<open>Window 1 has subscribed to \<^verbatim>\<open>/w1\<close> and \<^verbatim>\<open>/w3\<close>, window 2 to \<^verbatim>\<open>/w2\<close>.\<close>

definition two_windows :: world where
  "two_windows =
     run [SubscribeStart (Some winA) ''/w1'', SubscribeResume ''/w1'' 1 (Inr 7),
          SubscribeStart (Some winB) ''/w2'', SubscribeResume ''/w2'' 2 (Inr 8),
          SubscribeStart (Some winA) ''/w3'', SubscribeResume ''/w3'' 1 (Inr 9)]
       (initial_world [winA, winB])"

definition open_close_reopen :: "app_op list" where
  "open_close_reopen =
     [Register winA, Register winB, Closed 1, Register winC, Closed 2, Closed 3, Register winD]"

text \<open>
  Window 1 asks to subscribe to \<^verbatim>\<open>/repo\<close> and closes while the handler is suspended; the
  handler is resumed afterwards; both cache slots of \<^verbatim>\<open>/repo\<close> are populated.
\<close>

definition closed_before_resume :: world where
  "closed_before_resume =
     run [SubscribeStart (Some winA) ''/repo'', Electron [winB], WindowClosed 1,
          SubscribeResume ''/repo'' 1 (Inr 7),
          PopulateStatus ''/repo'' 5, PopulateParsedDiff ''/repo'' 6]
       (initial_world [winA, winB])"

text \<open>Window 1 has asked to subscribe to \<^verbatim>\<open>/late\<close>; its handler is suspended.\<close>

definition subscribe_in_flight :: world where
  "subscribe_in_flight = exec (SubscribeStart (Some winA) ''/late'') (initial_world [winA])"

text \<open>Windows 1 and 2 are registered, window 2 is unregistered, window 1 closes.\<close>

definition unregister_then_close :: "app_op list" where
  "unregister_then_close = [Register winA, Register winB, Unregister winB, Closed 1]"

definition evil_theme :: string where
  "evil_theme = ''/home/user/.vscode/extensions-evil/theme.json''"

section \<open>Facts about the bridge's operations\<close>

lemma pushes_append: "pushes (xs @ ys) = pushes xs @ pushes ys"
  by (induction xs rule: pushes.induct) auto

lemma fromId_bw_id: "fromId s k = Some w \<Longrightarrow> bw_id w = k"
  by (auto simp: fromId_def find_Some_iff)

subsection \<open>The loop of cleanupWindowSubscriptions\<close>

lemma cleanup_loop_trace:
  "trace (cleanup_loop wid ahead s) =
     trace s @ map (\<lambda>(p, sub). CallUnsubscribe (unsubscribe sub))
                 (filter (\<lambda>(p, sub). windowId sub = wid) ahead)"
  by (induction ahead arbitrary: s) auto

lemma cleanup_loop_table:
  "activeSubscriptions (cleanup_loop wid ahead s) =
     filter (\<lambda>e. fst e \<notin> fst ` {x \<in> set ahead. windowId (snd x) = wid}) (activeSubscriptions s)"
proof (induction ahead arbitrary: s)
  case Nil
  then show ?case by simp
next
  case (Cons a ahead)
  obtain p sub where a: "a = (p, sub)" by (cases a)
  show ?case
  proof (cases "windowId sub = wid")
    case True
    have "{x \<in> set (a # ahead). windowId (snd x) = wid} = insert a {x \<in> set ahead. windowId (snd x) = wid}"
      using True a by auto
    then show ?thesis
      using True a Cons.IH by (auto simp: AList.delete_eq intro!: filter_cong)
  next
    case False
    have "{x \<in> set (a # ahead). windowId (snd x) = wid} = {x \<in> set ahead. windowId (snd x) = wid}"
      using False a by auto
    then show ?thesis using False a Cons.IH by simp
  qed
qed

lemma cleanup_loop_pending: "pending (cleanup_loop wid ahead s) = pending s"
  by (induction ahead arbitrary: s) auto

lemma cleanup_loop_keys:
  "set (map fst (activeSubscriptions (cleanup_loop wid ahead s))) \<subseteq> set (map fst (activeSubscriptions s))"
proof (induction ahead arbitrary: s)
  case Nil then show ?case by simp
next
  case (Cons a ahead)
  obtain p sub where a: "a = (p, sub)" by (cases a)
  show ?case
  proof (cases "windowId sub = wid")
    case True
    have "set (map fst (activeSubscriptions (cleanup_loop wid (a # ahead) s)))
          \<subseteq> set (map fst (AList.delete p (activeSubscriptions s)))"
      using True a Cons.IH[of "s\<lparr>trace := trace s @ [CallUnsubscribe (unsubscribe sub)],
                activeSubscriptions := AList.delete p (activeSubscriptions s)\<rparr>"] by simp
    also have "\<dots> \<subseteq> set (map fst (activeSubscriptions s))"
      by (simp add: AList.delete_keys)
    finally show ?thesis .
  next
    case False
    then show ?thesis using a Cons.IH by simp
  qed
qed

lemma cleanup_loop_distinct:
  "distinct (map fst (activeSubscriptions s)) \<Longrightarrow>
   distinct (map fst (activeSubscriptions (cleanup_loop wid ahead s)))"
proof (induction ahead arbitrary: s)
  case Nil then show ?case by simp
next
  case (Cons a ahead)
  obtain p sub where a: "a = (p, sub)" by (cases a)
  show ?case using Cons a by (auto simp: AList.distinct_delete)
qed

lemma distinct_keys_filter:
  assumes "distinct (map fst al)"
  shows "filter (\<lambda>e. fst e \<notin> fst ` {x \<in> set al. P (snd x)}) al = filter (\<lambda>(p, v). \<not> P v) al"
proof (rule filter_cong[OF refl])
  fix e assume e: "e \<in> set al"
  have "fst e \<in> fst ` {x \<in> set al. P (snd x)} \<longleftrightarrow> P (snd e)"
  proof
    assume "fst e \<in> fst ` {x \<in> set al. P (snd x)}"
    then obtain x where x: "x \<in> set al" "P (snd x)" "fst x = fst e" by auto
    from assms x(1) e x(3) have "x = e"
      by (metis eq_key_imp_eq_value prod.collapse)
    with x(2) show "P (snd e)" by simp
  next
    assume "P (snd e)" with e show "fst e \<in> fst ` {x \<in> set al. P (snd x)}" by auto
  qed
  then show "(fst e \<notin> fst ` {x \<in> set al. P (snd x)}) = (case e of (p, v) \<Rightarrow> \<not> P v)"
    by (cases e) auto
qed

lemma cleanupWindowSubscriptions_table:
  assumes "distinct (map fst (activeSubscriptions s))"
  shows "activeSubscriptions (cleanupWindowSubscriptions wid s) =
           filter (\<lambda>(p, sub). windowId sub \<noteq> wid) (activeSubscriptions s)"
  unfolding cleanupWindowSubscriptions_def cleanup_loop_table
  using distinct_keys_filter[OF assms, of "\<lambda>sub. windowId sub = wid"] by simp

subsection \<open>The loop of cleanupGitWatchers\<close>

lemma unsubscribe_each_fields:
  "activeSubscriptions (unsubscribe_each subs s) = activeSubscriptions s \<and>
   pending (unsubscribe_each subs s) = pending s \<and>
   allWindows (unsubscribe_each subs s) = allWindows s \<and>
   statusSlot (unsubscribe_each subs s) = statusSlot s \<and>
   parsedDiffSlot (unsubscribe_each subs s) = parsedDiffSlot s"
  by (induction subs arbitrary: s) auto

lemma unsubscribe_each_trace:
  "trace (unsubscribe_each subs s) = trace s @ map (\<lambda>sub. CallUnsubscribe (unsubscribe sub)) subs"
  by (induction subs arbitrary: s) auto

subsection \<open>The table stays well formed along every run\<close>

lemma table_ok_initial: "table_ok (initial_world ws)"
  by (simp add: table_ok_def initial_world_def)

lemma callback_table:
  "activeSubscriptions (callback p ev s) = activeSubscriptions s \<and> pending (callback p ev s) = pending s"
  by (simp add: callback_def send_status_changed_def invalidateParsedDiff_def invalidateStatus_def
      split: option.splits)

lemma table_ok_exec: "table_ok s \<Longrightarrow> table_ok (exec x s)"
proof (cases x)
  case (SubscribeStart sender path)
  assume "table_ok s"
  then show ?thesis using SubscribeStart
    by (auto simp: table_ok_def handleSubscribe_start_def falsy_def split: option.splits)
next
  case (SubscribeResume path wid reply)
  assume ok: "table_ok s"
  show ?thesis
  proof (cases "(path, wid) \<in> set (pending s)")
    case True
    with ok have ne: "path \<noteq> []" by (force simp: table_ok_def)
    have sub: "set (map fst (remove1 (path, wid) (pending s))) \<subseteq> set (map fst (pending s))"
      using set_remove1_subset[of "(path, wid)" "pending s"] by auto
    show ?thesis using ok True ne sub SubscribeResume
      by (cases reply)
         (auto simp: table_ok_def handleSubscribe_resume_def Let_def AList.distinct_update
                     AList.update_keys)
  next
    case False
    then show ?thesis using ok SubscribeResume by simp
  qed
next
  case (UnsubscribeRequest path)
  assume ok: "table_ok s"
  have d: "distinct (map fst (AList.delete path (activeSubscriptions s)))"
    using ok by (simp add: table_ok_def AList.distinct_delete)
  have k: "[] \<notin> set (map fst (AList.delete path (activeSubscriptions s)))"
    using ok by (simp add: table_ok_def AList.delete_keys)
  show ?thesis using ok d k UnsubscribeRequest
    by (simp add: table_ok_def handleUnsubscribe_def split: option.splits)
next
  case (WatchEvent path ev)
  assume "table_ok s"
  then show ?thesis using WatchEvent callback_table[of path ev s] by (simp add: table_ok_def)
next
  case (WindowClosed wid)
  assume ok: "table_ok s"
  show ?thesis using ok WindowClosed cleanup_loop_keys[of wid "activeSubscriptions s" s]
      cleanup_loop_distinct[of s wid "activeSubscriptions s"]
      cleanup_loop_pending[of wid "activeSubscriptions s" s]
    by (auto simp: table_ok_def cleanupWindowSubscriptions_def)
next
  case ShutdownStart
  assume "table_ok s"
  then show ?thesis
    using ShutdownStart unsubscribe_each_fields[of "map snd (activeSubscriptions s)" s]
    by (simp add: table_ok_def cleanupGitWatchers_start_def unsubscribe_all_and_clear_def Let_def)
next
  case ShutdownResume
  assume "table_ok s"
  then show ?thesis using ShutdownResume by (simp add: cleanupGitWatchers_resume_def)
next
  case (Electron ws)
  assume "table_ok s" then show ?thesis using Electron by (simp add: table_ok_def)
next
  case (PopulateStatus p v)
  assume "table_ok s" then show ?thesis using PopulateStatus by (simp add: table_ok_def)
next
  case (PopulateParsedDiff p v)
  assume "table_ok s" then show ?thesis using PopulateParsedDiff by (simp add: table_ok_def)
qed

lemma table_ok_run: "table_ok s \<Longrightarrow> table_ok (run ops s)"
  by (induction ops arbitrary: s) (auto simp: table_ok_exec)

subsection \<open>The example states, evaluated\<close>

lemma subscribed_A_eq:
  "subscribed_A =
     \<lparr>activeSubscriptions = [(''/repo'', \<lparr>windowId = 1, unsubscribe = 7\<rparr>)],
      allWindows = [winA, winB],
      statusSlot = [''/repo'' \<mapsto> 5], parsedDiffSlot = [''/repo'' \<mapsto> 6],
      pending = [], trace = [RegistrySubscribe ''/repo'']\<rparr>"
  by (simp add: subscribed_A_def initial_world_def handleSubscribe_start_def
      handleSubscribe_resume_def falsy_def has_def winA_def)

lemma two_windows_eq:
  "two_windows =
     \<lparr>activeSubscriptions =
        [(''/w1'', \<lparr>windowId = 1, unsubscribe = 7\<rparr>), (''/w2'', \<lparr>windowId = 2, unsubscribe = 8\<rparr>),
         (''/w3'', \<lparr>windowId = 1, unsubscribe = 9\<rparr>)],
      allWindows = [winA, winB], statusSlot = Map.empty, parsedDiffSlot = Map.empty,
      pending = [],
      trace = [RegistrySubscribe ''/w1'', RegistrySubscribe ''/w2'', RegistrySubscribe ''/w3'']\<rparr>"
  by (simp add: two_windows_def initial_world_def handleSubscribe_start_def
      handleSubscribe_resume_def falsy_def has_def winA_def winB_def)

text \<open>
  The deduplication looks at recorded subscriptions only. Two requests for one worktree
  that both reach the \<^verbatim>\<open>await\<close> before either is resumed both call the registry, and the
  later \<^verbatim>\<open>set\<close> replaces the earlier record.
\<close>

lemma overlapping_subscribes_both_reach_registry:
  "run [SubscribeStart (Some winA) ''/repo'', SubscribeStart (Some winB) ''/repo'',
        SubscribeResume ''/repo'' 1 (Inr 7), SubscribeResume ''/repo'' 2 (Inr 8)]
     (initial_world [winA, winB]) =
   \<lparr>activeSubscriptions = [(''/repo'', \<lparr>windowId = 2, unsubscribe = 8\<rparr>)],
    allWindows = [winA, winB], statusSlot = Map.empty, parsedDiffSlot = Map.empty,
    pending = [], trace = [RegistrySubscribe ''/repo'', RegistrySubscribe ''/repo'']\<rparr>"
  by (simp add: initial_world_def handleSubscribe_start_def handleSubscribe_resume_def
      falsy_def has_def winA_def winB_def)

section \<open>Claims about the bridge\<close>

text \<open>
  C9. A subscribe or unsubscribe request whose worktree path is empty returns at once:
  for every state, whatever the subscription table holds, the state after the handler is
  the state before it (so the table is unchanged and the trace has no new call to the
  registry), and the handler resolves without an error.
\<close>

theorem empty_path_rejected:
  assumes "falsy path"
  shows "handleSubscribe_start sender path s = (Returned, s) \<and>
         handleSubscribe sender path reply s = (Resolved, s) \<and>
         handleUnsubscribe path s = (Resolved, s)"
  using assms by (simp add: handleSubscribe_def handleSubscribe_start_def handleUnsubscribe_def)

theorem empty_path_rejected_witness:
  "falsy [] \<and>
   handleSubscribe (Some winA) [] (Inr 7) subscribed_A = (Resolved, subscribed_A) \<and>
   handleUnsubscribe [] subscribed_A = (Resolved, subscribed_A)"
proof -
  have f: "falsy []" by (simp add: falsy_def)
  show ?thesis using f empty_path_rejected[OF f] by simp
qed

text \<open>
  C7. When the requesting window cannot be resolved (\<^verbatim>\<open>fromWebContents\<close> gives \<^verbatim>\<open>null\<close>) or
  is already destroyed, the subscribe handler returns with the state unchanged: the
  registry's subscribe is not called and no subscription is recorded.
\<close>

theorem unresolved_window_abandons_subscribe:
  assumes "sender = None \<or> (\<exists>w. sender = Some w \<and> isDestroyed w)"
  shows "handleSubscribe_start sender path s = (Returned, s) \<and>
         handleSubscribe sender path reply s = (Resolved, s)"
  using assms by (auto simp: handleSubscribe_def handleSubscribe_start_def)

theorem unresolved_window_abandons_subscribe_witness:
  "handleSubscribe None ''/repo'' (Inr 7) (initial_world []) = (Resolved, initial_world []) \<and>
   handleSubscribe (Some (winA\<lparr>isDestroyed := True\<rparr>)) ''/repo'' (Inr 7) (initial_world [])
     = (Resolved, initial_world [])"
proof -
  have a: "(None :: browser_window option) = None \<or> (\<exists>w. None = Some w \<and> isDestroyed w)"
    by simp
  have b: "Some (winA\<lparr>isDestroyed := True\<rparr>) = None \<or>
           (\<exists>w. Some (winA\<lparr>isDestroyed := True\<rparr>) = Some w \<and> isDestroyed w)"
    by simp
  show ?thesis
    using unresolved_window_abandons_subscribe[OF a] unresolved_window_abandons_subscribe[OF b]
    by simp
qed

text \<open>
  C2. In every state reached by a run from the empty table, the table holds at most one
  subscription per worktree path, and a subscribe request for a path that already has a
  recorded subscription returns at once with the state unchanged: no call to the
  registry's subscribe, no second listener, and the record (with its window id) as it was.
\<close>

theorem one_subscription_per_worktree:
  assumes "s = run ops (initial_world ws)"
  shows "distinct (map fst (activeSubscriptions s)) \<and>
         (has (activeSubscriptions s) path \<longrightarrow>
            handleSubscribe_start sender path s = (Returned, s) \<and>
            handleSubscribe sender path reply s = (Resolved, s))"
proof -
  have "table_ok s" using assms table_ok_run[OF table_ok_initial] by simp
  then have "distinct (map fst (activeSubscriptions s))" by (simp add: table_ok_def)
  then show ?thesis by (simp add: handleSubscribe_def handleSubscribe_start_def)
qed

theorem one_subscription_per_worktree_witness:
  "distinct (map fst (activeSubscriptions subscribed_A)) \<and>
   has (activeSubscriptions subscribed_A) ''/repo'' \<and>
   handleSubscribe (Some winB) ''/repo'' (Inr 8) subscribed_A = (Resolved, subscribed_A) \<and>
   map_of (activeSubscriptions subscribed_A) ''/repo'' = Some \<lparr>windowId = 1, unsubscribe = 7\<rparr>"
proof -
  have h: "has (activeSubscriptions subscribed_A) ''/repo''"
    by (simp add: subscribed_A_eq has_def)
  have m: "map_of (activeSubscriptions subscribed_A) ''/repo'' = Some \<lparr>windowId = 1, unsubscribe = 7\<rparr>"
    by (simp add: subscribed_A_eq)
  show ?thesis
    using h m one_subscription_per_worktree[OF subscribed_A_def, of "''/repo''" "Some winB" "Inr 8"]
    by simp
qed

text \<open>
  C6. In every state reached by a run from the empty table: an unsubscribe request for a
  path with a recorded subscription invokes that subscription's capability and removes
  the record; for a path with no record it leaves the state unchanged; it never raises;
  and a second unsubscribe for the same path right after the first changes nothing.
\<close>

theorem unsubscribe_removes_record_or_is_noop:
  assumes "s = run ops (initial_world ws)"
  shows "(\<forall>sub. map_of (activeSubscriptions s) path = Some sub \<longrightarrow>
            handleUnsubscribe path s =
              (Resolved, s\<lparr>trace := trace s @ [CallUnsubscribe (unsubscribe sub)],
                           activeSubscriptions := AList.delete path (activeSubscriptions s)\<rparr>) \<and>
            \<not> has (AList.delete path (activeSubscriptions s)) path) \<and>
         (\<not> has (activeSubscriptions s) path \<longrightarrow> handleUnsubscribe path s = (Resolved, s)) \<and>
         handleUnsubscribe path (snd (handleUnsubscribe path s)) =
           (Resolved, snd (handleUnsubscribe path s))"
proof -
  have ok: "table_ok s" using assms table_ok_run[OF table_ok_initial] by simp
  have gone: "map_of (AList.delete path (activeSubscriptions s)) path = None"
    by (simp add: AList.delete_conv')
  have first: "handleUnsubscribe path s =
              (Resolved, s\<lparr>trace := trace s @ [CallUnsubscribe (unsubscribe sub)],
                           activeSubscriptions := AList.delete path (activeSubscriptions s)\<rparr>)"
    if rec: "map_of (activeSubscriptions s) path = Some sub" for sub
  proof -
    from rec have "(path, sub) \<in> set (activeSubscriptions s)" by (rule map_of_SomeD)
    then have "path \<in> set (map fst (activeSubscriptions s))" by force
    moreover from ok have "[] \<notin> set (map fst (activeSubscriptions s))"
      by (simp add: table_ok_def)
    ultimately have "path \<noteq> []" by metis
    with rec show ?thesis by (simp add: handleUnsubscribe_def falsy_def)
  qed
  have second: "handleUnsubscribe path s = (Resolved, s)" if "\<not> has (activeSubscriptions s) path"
    using that by (simp add: handleUnsubscribe_def has_def)
  have third: "handleUnsubscribe path (snd (handleUnsubscribe path s)) =
           (Resolved, snd (handleUnsubscribe path s))"
    using gone by (simp add: handleUnsubscribe_def split: option.splits)
  show ?thesis using first second third gone by (simp add: has_def)
qed

theorem unsubscribe_removes_record_or_is_noop_witness:
  "handleUnsubscribe ''/repo'' subscribed_A =
     (Resolved, subscribed_A\<lparr>trace := [RegistrySubscribe ''/repo'', CallUnsubscribe 7],
                             activeSubscriptions := []\<rparr>) \<and>
   handleUnsubscribe ''/repo'' (snd (handleUnsubscribe ''/repo'' subscribed_A)) =
     (Resolved, snd (handleUnsubscribe ''/repo'' subscribed_A)) \<and>
   handleUnsubscribe ''/other'' subscribed_A = (Resolved, subscribed_A)"
proof -
  have m: "map_of (activeSubscriptions subscribed_A) ''/repo'' = Some \<lparr>windowId = 1, unsubscribe = 7\<rparr>"
    by (simp add: subscribed_A_eq)
  have n: "\<not> has (activeSubscriptions subscribed_A) ''/other''"
    by (simp add: subscribed_A_eq has_def)
  note repo = unsubscribe_removes_record_or_is_noop[OF subscribed_A_def, of "''/repo''"]
  note other = unsubscribe_removes_record_or_is_noop[OF subscribed_A_def, of "''/other''"]
  from repo m have "handleUnsubscribe ''/repo'' subscribed_A =
      (Resolved, subscribed_A\<lparr>trace := trace subscribed_A @ [CallUnsubscribe 7],
         activeSubscriptions := AList.delete ''/repo'' (activeSubscriptions subscribed_A)\<rparr>)"
    by simp
  then have c1: "handleUnsubscribe ''/repo'' subscribed_A =
     (Resolved, subscribed_A\<lparr>trace := [RegistrySubscribe ''/repo'', CallUnsubscribe 7],
                             activeSubscriptions := []\<rparr>)"
    by (simp add: subscribed_A_eq)
  from repo have c2: "handleUnsubscribe ''/repo'' (snd (handleUnsubscribe ''/repo'' subscribed_A)) =
     (Resolved, snd (handleUnsubscribe ''/repo'' subscribed_A))"
    by blast
  from other n have c3: "handleUnsubscribe ''/other'' subscribed_A = (Resolved, subscribed_A)"
    by blast
  from c1 c2 c3 show ?thesis by blast
qed

text \<open>
  C4. A window-closed notification for window \<open>wid\<close>, in every state reached by a run from
  the empty table: the capability of every subscription recorded for \<open>wid\<close> is invoked (in
  table order) and its record removed, the subscriptions recorded for other windows stay
  in the table as they were, and the manager's closed listener does exactly this to the
  bridge.
\<close>

theorem window_closed_unsubscribes_its_subscriptions:
  assumes "s = run ops (initial_world ws)"
  shows "activeSubscriptions (cleanupWindowSubscriptions wid s) =
           filter (\<lambda>(p, sub). windowId sub \<noteq> wid) (activeSubscriptions s) \<and>
         trace (cleanupWindowSubscriptions wid s) =
           trace s @ map (\<lambda>(p, sub). CallUnsubscribe (unsubscribe sub))
                       (filter (\<lambda>(p, sub). windowId sub = wid) (activeSubscriptions s)) \<and>
         snd (on_closed wid (m, s)) = cleanupWindowSubscriptions wid s"
proof -
  have ok: "table_ok s" using assms table_ok_run[OF table_ok_initial] by simp
  then have d: "distinct (map fst (activeSubscriptions s))" by (simp add: table_ok_def)
  show ?thesis
    using cleanupWindowSubscriptions_table[OF d, of wid]
    by (simp add: cleanupWindowSubscriptions_def cleanup_loop_trace on_closed_def)
qed

theorem window_closed_unsubscribes_its_subscriptions_witness:
  "activeSubscriptions (cleanupWindowSubscriptions 1 two_windows) =
     [(''/w2'', \<lparr>windowId = 2, unsubscribe = 8\<rparr>)] \<and>
   trace (cleanupWindowSubscriptions 1 two_windows) =
     [RegistrySubscribe ''/w1'', RegistrySubscribe ''/w2'', RegistrySubscribe ''/w3'',
      CallUnsubscribe 7, CallUnsubscribe 9]"
  using window_closed_unsubscribes_its_subscriptions[OF two_windows_def, of 1 initial_manager]
  by (simp add: two_windows_eq)

lemma exec_keeps_empty_table:
  assumes "activeSubscriptions s = []" and "\<not> records_subscription x"
  shows "activeSubscriptions (exec x s) = []"
proof (cases x)
  case (SubscribeStart sender path)
  with assms(1) show ?thesis
    by (simp add: handleSubscribe_start_def split: option.splits)
next
  case (SubscribeResume path wid reply)
  with assms(2) obtain e where "reply = Inl e" by (cases reply) auto
  with assms(1) SubscribeResume show ?thesis
    by (simp add: handleSubscribe_resume_def Let_def)
next
  case (UnsubscribeRequest path)
  with assms(1) show ?thesis by (simp add: handleUnsubscribe_def)
next
  case (WatchEvent path ev)
  with assms(1) callback_table[of path ev s] show ?thesis by simp
next
  case (WindowClosed wid)
  with assms(1) show ?thesis by (simp add: cleanupWindowSubscriptions_def)
next
  case ShutdownStart
  then show ?thesis
    by (simp add: cleanupGitWatchers_start_def unsubscribe_all_and_clear_def Let_def)
next
  case ShutdownResume
  with assms(1) show ?thesis by (simp add: cleanupGitWatchers_resume_def)
next
  case (Electron ws)
  with assms(1) show ?thesis by simp
next
  case (PopulateStatus p v)
  with assms(1) show ?thesis by simp
next
  case (PopulateParsedDiff p v)
  with assms(1) show ?thesis by simp
qed

lemma run_keeps_empty_table:
  "activeSubscriptions s = [] \<Longrightarrow> list_all (\<lambda>x. \<not> records_subscription x) ops \<Longrightarrow>
   activeSubscriptions (run ops s) = []"
  by (induction ops arbitrary: s) (auto simp: exec_keeps_empty_table)

lemma subscribe_in_flight_eq:
  "subscribe_in_flight =
     \<lparr>activeSubscriptions = [], allWindows = [winA], statusSlot = Map.empty,
      parsedDiffSlot = Map.empty, pending = [(''/late'', 1)],
      trace = [RegistrySubscribe ''/late'']\<rparr>"
  by (simp add: subscribe_in_flight_def initial_world_def handleSubscribe_start_def falsy_def
      has_def winA_def)

text \<open>
  C5, as stated, fails at its last part. Window 1 has asked to subscribe to \<^verbatim>\<open>/late\<close> and
  its handler is suspended when shutdown starts. The routine clears the table and calls
  \<^verbatim>\<open>disposeAll\<close>; while it waits for \<^verbatim>\<open>disposeAll\<close>, the subscribe handler is resumed and
  records its subscription. When the routine completes, the table holds that record.
\<close>

theorem shutdown_leaves_record_of_resumed_subscribe:
  "activeSubscriptions (cleanupGitWatchers_start subscribe_in_flight) = [] \<and>
   activeSubscriptions
     (cleanupGitWatchers [SubscribeResume ''/late'' 1 (Inr 7)] subscribe_in_flight) =
     [(''/late'', \<lparr>windowId = 1, unsubscribe = 7\<rparr>)]"
  by (simp add: cleanupGitWatchers_def cleanupGitWatchers_resume_def cleanupGitWatchers_start_def
      unsubscribe_all_and_clear_def Let_def handleSubscribe_resume_def subscribe_in_flight_eq)

text \<open>
  C5, amended. Shutdown: \<^verbatim>\<open>cleanupGitWatchers\<close> first invokes the capability of every
  recorded subscription, in table order, and clears the table; in that state, with the
  table empty, it calls the registry's \<^verbatim>\<open>disposeAll\<close> and waits for it. When nothing runs
  in between, the routine completes in the state in which it called \<^verbatim>\<open>disposeAll\<close>.
  Whatever runs while it waits, the table is empty when the routine completes, provided
  no suspended subscribe handler was resumed with a capability in the meantime.
\<close>

theorem shutdown_unsubscribes_all_then_disposes:
  "trace (unsubscribe_all_and_clear s) =
      trace s @ map (\<lambda>(p, sub). CallUnsubscribe (unsubscribe sub)) (activeSubscriptions s) \<and>
   activeSubscriptions (unsubscribe_all_and_clear s) = [] \<and>
   trace (cleanupGitWatchers_start s) = trace (unsubscribe_all_and_clear s) @ [DisposeAll] \<and>
   activeSubscriptions (cleanupGitWatchers_start s) = [] \<and>
   cleanupGitWatchers [] s = cleanupGitWatchers_start s \<and>
   (list_all (\<lambda>x. \<not> records_subscription x) during \<longrightarrow>
      activeSubscriptions (cleanupGitWatchers during s) = [])"
proof -
  have a: "trace (unsubscribe_all_and_clear s) =
      trace s @ map (\<lambda>(p, sub). CallUnsubscribe (unsubscribe sub)) (activeSubscriptions s)"
    by (simp add: unsubscribe_all_and_clear_def Let_def unsubscribe_each_trace case_prod_beta
        comp_def)
  have b: "activeSubscriptions (unsubscribe_all_and_clear s) = []"
    by (simp add: unsubscribe_all_and_clear_def Let_def)
  have c: "trace (cleanupGitWatchers_start s) = trace (unsubscribe_all_and_clear s) @ [DisposeAll]"
    by (simp add: cleanupGitWatchers_start_def Let_def)
  have d: "activeSubscriptions (cleanupGitWatchers_start s) = []"
    using b by (simp add: cleanupGitWatchers_start_def Let_def)
  have e: "cleanupGitWatchers [] s = cleanupGitWatchers_start s"
    by (simp add: cleanupGitWatchers_def cleanupGitWatchers_resume_def)
  have f: "activeSubscriptions (cleanupGitWatchers during s) = []"
    if "list_all (\<lambda>x. \<not> records_subscription x) during"
    using run_keeps_empty_table[OF d that]
    by (simp add: cleanupGitWatchers_def cleanupGitWatchers_resume_def)
  from a b c d e f show ?thesis by blast
qed

theorem shutdown_unsubscribes_all_then_disposes_witness:
  "trace (cleanupGitWatchers_start two_windows) =
     [RegistrySubscribe ''/w1'', RegistrySubscribe ''/w2'', RegistrySubscribe ''/w3'',
      CallUnsubscribe 7, CallUnsubscribe 8, CallUnsubscribe 9, DisposeAll] \<and>
   list_all (\<lambda>x. \<not> records_subscription x)
     [WatchEvent ''/w1'' index_changed, SubscribeStart (Some winA) ''/new'',
      SubscribeResume ''/new'' 1 (Inl WatchOpenFailure)] \<and>
   activeSubscriptions
     (cleanupGitWatchers
        [WatchEvent ''/w1'' index_changed, SubscribeStart (Some winA) ''/new'',
         SubscribeResume ''/new'' 1 (Inl WatchOpenFailure)] two_windows) = []"
proof -
  note t = shutdown_unsubscribes_all_then_disposes[of two_windows
      "[WatchEvent ''/w1'' index_changed, SubscribeStart (Some winA) ''/new'',
        SubscribeResume ''/new'' 1 (Inl WatchOpenFailure)]"]
  have quiet: "list_all (\<lambda>x. \<not> records_subscription x)
     [WatchEvent ''/w1'' index_changed, SubscribeStart (Some winA) ''/new'',
      SubscribeResume ''/new'' 1 (Inl WatchOpenFailure)]"
    by simp
  from t have "trace (cleanupGitWatchers_start two_windows) =
      trace two_windows @ map (\<lambda>(p, sub). CallUnsubscribe (unsubscribe sub))
         (activeSubscriptions two_windows) @ [DisposeAll]"
    by simp
  then have c1: "trace (cleanupGitWatchers_start two_windows) =
     [RegistrySubscribe ''/w1'', RegistrySubscribe ''/w2'', RegistrySubscribe ''/w3'',
      CallUnsubscribe 7, CallUnsubscribe 8, CallUnsubscribe 9, DisposeAll]"
    by (simp add: two_windows_eq)
  from t quiet have c2: "activeSubscriptions
     (cleanupGitWatchers
        [WatchEvent ''/w1'' index_changed, SubscribeStart (Some winA) ''/new'',
         SubscribeResume ''/new'' 1 (Inl WatchOpenFailure)] two_windows) = []"
    by blast
  from c1 quiet c2 show ?thesis by blast
qed

lemma closed_before_resume_eq:
  "closed_before_resume =
     \<lparr>activeSubscriptions = [(''/repo'', \<lparr>windowId = 1, unsubscribe = 7\<rparr>)],
      allWindows = [winB],
      statusSlot = [''/repo'' \<mapsto> 5], parsedDiffSlot = [''/repo'' \<mapsto> 6],
      pending = [], trace = [RegistrySubscribe ''/repo'']\<rparr>"
  by (simp add: closed_before_resume_def initial_world_def handleSubscribe_start_def
      handleSubscribe_resume_def cleanupWindowSubscriptions_def falsy_def has_def winA_def)

text \<open>
  The path through the callback that reaches the invalidations. When the recorded window
  is found and not destroyed, the status and parsed-diff slots are invalidated, in that
  order, before the push is attempted, and whether the push then returns or raises (the
  \<^verbatim>\<open>catch\<close> path), both slots are absent afterwards.
\<close>

lemma invalidate_before_push_when_window_alive:
  assumes "map_of (activeSubscriptions s) path = Some sub"
      and "fromId s (windowId sub) = Some w"
      and "\<not> isDestroyed w"
  shows "trace (callback path ev s) =
           trace s @ [InvalidateStatus path, InvalidateParsedDiff path,
                      if sendThrows w then SendThrew (windowId sub) (worktreePath ev) (changes ev)
                      else Sent (windowId sub) (worktreePath ev) (changes ev)] \<and>
         statusSlot (callback path ev s) path = None \<and>
         parsedDiffSlot (callback path ev s) path = None"
  using assms fromId_bw_id[OF assms(2)]
  by (simp add: callback_def send_status_changed_def invalidateParsedDiff_def invalidateStatus_def)

lemma send_raises_after_invalidation:
  "trace (callback ''/repo'' index_changed (subscribed_A\<lparr>allWindows := [winA\<lparr>sendThrows := True\<rparr>]\<rparr>)) =
     [RegistrySubscribe ''/repo'', InvalidateStatus ''/repo'', InvalidateParsedDiff ''/repo'',
      SendThrew 1 ''/repo'' [''index'']] \<and>
   statusSlot (callback ''/repo'' index_changed
      (subscribed_A\<lparr>allWindows := [winA\<lparr>sendThrows := True\<rparr>]\<rparr>)) ''/repo'' = None \<and>
   parsedDiffSlot (callback ''/repo'' index_changed
      (subscribed_A\<lparr>allWindows := [winA\<lparr>sendThrows := True\<rparr>]\<rparr>)) ''/repo'' = None"
proof -
  let ?s = "subscribed_A\<lparr>allWindows := [winA\<lparr>sendThrows := True\<rparr>]\<rparr>"
  have a: "map_of (activeSubscriptions ?s) ''/repo'' = Some \<lparr>windowId = 1, unsubscribe = 7\<rparr>"
    by (simp add: subscribed_A_eq)
  have b: "fromId ?s (windowId \<lparr>windowId = 1, unsubscribe = 7\<rparr>) = Some (winA\<lparr>sendThrows := True\<rparr>)"
    by (simp add: fromId_def winA_def)
  have c: "\<not> isDestroyed (winA\<lparr>sendThrows := True\<rparr>)" by (simp add: winA_def)
  show ?thesis
    using invalidate_before_push_when_window_alive[OF a b c, of index_changed]
    by (simp add: subscribed_A_eq index_changed_def)
qed

text \<open>
  C1. The claim has both cache slots invalidated for every event that arrives while a
  subscription for the worktree is recorded, also when the destination window is gone.
  The code does otherwise: whenever a subscription is recorded and its window is not
  found or is destroyed, the callback returns at the window check, before the two
  invalidations; the state is unchanged, so both slots keep whatever they held and no
  call reaches the cache.
\<close>

theorem callback_returns_before_invalidating_when_window_gone:
  assumes "map_of (activeSubscriptions s) path = Some sub"
      and "fromId s (windowId sub) = None \<or>
           (\<exists>w. fromId s (windowId sub) = Some w \<and> isDestroyed w)"
  shows "callback path ev s = s \<and>
         statusSlot (callback path ev s) path = statusSlot s path \<and>
         parsedDiffSlot (callback path ev s) path = parsedDiffSlot s path \<and>
         trace (callback path ev s) = trace s"
proof -
  from assms have "callback path ev s = s" by (auto simp: callback_def)
  then show ?thesis by simp
qed

text \<open>
  Two such states. In the first, window 1 closed while its subscribe handler was
  suspended and the handler was resumed afterwards, so the record outlives the
  window-closed cleanup. In the second, window 1 is still in Electron's table but
  destroyed. In both, after an event for \<^verbatim>\<open>/repo\<close> the slots still hold 5 and 6.
\<close>

theorem callback_returns_before_invalidating_when_window_gone_witness:
  "has (activeSubscriptions closed_before_resume) ''/repo'' \<and>
   callback ''/repo'' index_changed closed_before_resume = closed_before_resume \<and>
   statusSlot (callback ''/repo'' index_changed closed_before_resume) ''/repo'' = Some 5 \<and>
   parsedDiffSlot (callback ''/repo'' index_changed closed_before_resume) ''/repo'' = Some 6 \<and>
   statusSlot (callback ''/repo'' index_changed
      (subscribed_A\<lparr>allWindows := [winA\<lparr>isDestroyed := True\<rparr>]\<rparr>)) ''/repo'' = Some 5 \<and>
   parsedDiffSlot (callback ''/repo'' index_changed
      (subscribed_A\<lparr>allWindows := [winA\<lparr>isDestroyed := True\<rparr>]\<rparr>)) ''/repo'' = Some 6"
proof -
  let ?d = "subscribed_A\<lparr>allWindows := [winA\<lparr>isDestroyed := True\<rparr>]\<rparr>"
  have h: "has (activeSubscriptions closed_before_resume) ''/repo''"
    by (simp add: closed_before_resume_eq has_def)
  have a1: "map_of (activeSubscriptions closed_before_resume) ''/repo'' =
      Some \<lparr>windowId = 1, unsubscribe = 7\<rparr>"
    by (simp add: closed_before_resume_eq)
  have b1: "fromId closed_before_resume (windowId \<lparr>windowId = 1, unsubscribe = 7\<rparr>) = None \<or>
      (\<exists>w. fromId closed_before_resume (windowId \<lparr>windowId = 1, unsubscribe = 7\<rparr>) = Some w \<and>
           isDestroyed w)"
    by (simp add: closed_before_resume_eq fromId_def winB_def)
  have a2: "map_of (activeSubscriptions ?d) ''/repo'' = Some \<lparr>windowId = 1, unsubscribe = 7\<rparr>"
    by (simp add: subscribed_A_eq)
  have b2: "fromId ?d (windowId \<lparr>windowId = 1, unsubscribe = 7\<rparr>) = None \<or>
      (\<exists>w. fromId ?d (windowId \<lparr>windowId = 1, unsubscribe = 7\<rparr>) = Some w \<and> isDestroyed w)"
    by (simp add: fromId_def winA_def)
  note gone = callback_returns_before_invalidating_when_window_gone[OF a1 b1, of index_changed]
  note destroyed = callback_returns_before_invalidating_when_window_gone[OF a2 b2, of index_changed]
  from gone have c1: "callback ''/repo'' index_changed closed_before_resume = closed_before_resume"
    by blast
  from gone have c2: "statusSlot (callback ''/repo'' index_changed closed_before_resume) ''/repo'' = Some 5"
    by (simp add: closed_before_resume_eq)
  from gone have c3: "parsedDiffSlot (callback ''/repo'' index_changed closed_before_resume) ''/repo'' = Some 6"
    by (simp add: closed_before_resume_eq)
  from destroyed have c4: "statusSlot (callback ''/repo'' index_changed ?d) ''/repo'' = Some 5"
    by (simp add: subscribed_A_eq)
  from destroyed have c5: "parsedDiffSlot (callback ''/repo'' index_changed ?d) ''/repo'' = Some 6"
    by (simp add: subscribed_A_eq)
  from h c1 c2 c3 c4 c5 show ?thesis by blast
qed

text \<open>
  C3. The destination of a push is the window id recorded in the subscription, whatever
  window has the focus: for every focused window \<open>b\<close>, when a subscription for the path is
  recorded, the callback leaves the manager's focus alone, and the event is pushed to the
  recorded window id if that window is found, not destroyed and the send goes through,
  and to no window otherwise. The recorded window id is the id of the window that made
  the subscribe request.
\<close>

theorem events_route_to_subscribing_window:
  assumes "map_of (activeSubscriptions s) path = Some sub"
  shows "app_exec (Bridge (WatchEvent path ev)) (on_focus b m, s) =
           (on_focus b m, callback path ev s) \<and>
         pushes (trace (callback path ev s)) =
           pushes (trace s) @
             (case fromId s (windowId sub) of
                None \<Rightarrow> []
              | Some w \<Rightarrow> if isDestroyed w \<or> sendThrows w then [] else [windowId sub]) \<and>
         (\<not> falsy p \<and> \<not> has (activeSubscriptions s0) p \<and> \<not> isDestroyed a \<longrightarrow>
            map_of (activeSubscriptions (snd (handleSubscribe (Some a) p (Inr u) s0))) p =
              Some \<lparr>windowId = bw_id a, unsubscribe = u\<rparr>)"
proof -
  have routed: "pushes (trace (callback path ev s)) =
           pushes (trace s) @
             (case fromId s (windowId sub) of
                None \<Rightarrow> []
              | Some w \<Rightarrow> if isDestroyed w \<or> sendThrows w then [] else [windowId sub])"
  proof (cases "fromId s (windowId sub)")
    case None
    with assms show ?thesis by (simp add: callback_def)
  next
    case (Some w)
    with assms fromId_bw_id[OF Some] show ?thesis
      by (simp add: callback_def send_status_changed_def invalidateParsedDiff_def
          invalidateStatus_def pushes_append)
  qed
  have recorded: "map_of (activeSubscriptions (snd (handleSubscribe (Some a) p (Inr u) s0))) p =
              Some \<lparr>windowId = bw_id a, unsubscribe = u\<rparr>"
    if "\<not> falsy p" "\<not> has (activeSubscriptions s0) p" "\<not> isDestroyed a"
    using that
    by (simp add: handleSubscribe_def handleSubscribe_start_def handleSubscribe_resume_def
        Let_def AList.update_conv')
  from routed recorded show ?thesis by simp
qed

text \<open>
  Window 1 subscribes to \<^verbatim>\<open>/repo\<close>, window 2 then takes the focus, and an event for
  \<^verbatim>\<open>/repo\<close> arrives: the only push goes to window 1.
\<close>

theorem events_route_to_subscribing_window_witness:
  "app_run [Bridge (SubscribeStart (Some winA) ''/repo''),
            Bridge (SubscribeResume ''/repo'' 1 (Inr 7)),
            Focus 2] (initial_manager, initial_world [winA, winB])
     = (on_focus 2 initial_manager,
        run [SubscribeStart (Some winA) ''/repo'', SubscribeResume ''/repo'' 1 (Inr 7)]
          (initial_world [winA, winB])) \<and>
   pushes (trace (snd (app_exec (Bridge (WatchEvent ''/repo'' index_changed))
      (on_focus 2 initial_manager,
       run [SubscribeStart (Some winA) ''/repo'', SubscribeResume ''/repo'' 1 (Inr 7)]
          (initial_world [winA, winB]))))) = [1]"
proof -
  let ?s = "run [SubscribeStart (Some winA) ''/repo'', SubscribeResume ''/repo'' 1 (Inr 7)]
          (initial_world [winA, winB])"
  have s: "?s = \<lparr>activeSubscriptions = [(''/repo'', \<lparr>windowId = 1, unsubscribe = 7\<rparr>)],
      allWindows = [winA, winB], statusSlot = Map.empty, parsedDiffSlot = Map.empty,
      pending = [], trace = [RegistrySubscribe ''/repo'']\<rparr>"
    by (simp add: initial_world_def handleSubscribe_start_def
      handleSubscribe_resume_def falsy_def has_def winA_def)
  have a: "map_of (activeSubscriptions ?s) ''/repo'' = Some \<lparr>windowId = 1, unsubscribe = 7\<rparr>"
    unfolding s by simp
  have f: "fromId ?s 1 = Some winA" unfolding s by (simp add: fromId_def winA_def)
  have r: "app_run [Bridge (SubscribeStart (Some winA) ''/repo''),
            Bridge (SubscribeResume ''/repo'' 1 (Inr 7)),
            Focus 2] (initial_manager, initial_world [winA, winB]) = (on_focus 2 initial_manager, ?s)"
    by simp
  have t: "pushes (trace ?s) = []" unfolding s by simp
  show ?thesis
    using events_route_to_subscribing_window[OF a, of index_changed 2 initial_manager] f r t
    by (simp add: winA_def)
qed

section \<open>Facts about the window manager\<close>

declare decimal.simps [simp del]

lemma digit_char_inj_on: "inj_on digit_char {..<10}"
  by (simp add: inj_on_def digit_char_def lessThan_nat_numeral lessThan_Suc)

lemma digit_char_inj:
  assumes "a < 10" "b < 10" "digit_char a = digit_char b"
  shows "a = b"
  using assms digit_char_inj_on by (auto dest: inj_onD)

lemma decimal_length: "0 < length (decimal n) \<and> (10 \<le> n \<longrightarrow> 2 \<le> length (decimal n))"
proof (induction n rule: decimal.induct)
  case (1 n)
  show ?case
  proof (cases "n < 10")
    case True
    then show ?thesis by (simp add: decimal.simps[of n])
  next
    case False
    with 1 have "0 < length (decimal (n div 10))" by simp
    then have "Suc 0 \<le> length (decimal (n div 10))" by arith
    with False show ?thesis by (simp add: decimal.simps[of n])
  qed
qed

lemma decimal_inj: "decimal a = decimal b \<Longrightarrow> a = b"
proof (induction a arbitrary: b rule: decimal.induct)
  case (1 n)
  show ?case
  proof (cases "n < 10")
    case small: True
    show ?thesis
    proof (cases "b < 10")
      case True
      with small 1(2) show ?thesis
        by (simp add: decimal.simps[of n] decimal.simps[of b] digit_char_inj)
    next
      case False
      then have "2 \<le> length (decimal b)" using decimal_length[of b] by simp
      moreover have "length (decimal n) = 1" using small by (simp add: decimal.simps[of n])
      ultimately show ?thesis using 1(2) by simp
    qed
  next
    case big: False
    show ?thesis
    proof (cases "b < 10")
      case True
      have "2 \<le> length (decimal n)" using big decimal_length[of n] by simp
      moreover have "length (decimal b) = 1" using True by (simp add: decimal.simps[of b])
      ultimately show ?thesis using 1(2) by simp
    next
      case False
      from 1(2) big False have eq: "decimal (n div 10) @ [digit_char (n mod 10)] =
          decimal (b div 10) @ [digit_char (b mod 10)]"
        by (simp add: decimal.simps[of n] decimal.simps[of b])
      then have "decimal (n div 10) = decimal (b div 10)" and d: "digit_char (n mod 10) = digit_char (b mod 10)"
        by simp_all
      with 1(1)[OF big] have q: "n div 10 = b div 10" by simp
      from d have r: "n mod 10 = b mod 10" by (intro digit_char_inj) simp_all
      from q r show ?thesis by (metis div_mult_mod_eq)
    qed
  qed
qed

lemma secondary_not_main: "''window-'' @ x \<noteq> ''main''"
  by simp

lemma secondary_below_not_main: "secondary_below n sid \<Longrightarrow> sid \<noteq> ''main''"
  by (auto simp: secondary_below_def)

lemma secondary_below_mono: "secondary_below n sid \<Longrightarrow> n \<le> n' \<Longrightarrow> secondary_below n' sid"
  by (auto simp: secondary_below_def)

lemma secondary_below_fresh: "secondary_below n sid \<Longrightarrow> sid \<noteq> ''window-'' @ decimal n"
  by (auto simp: secondary_below_def dest: decimal_inj)

lemma set_update_subset: "set (AList.update k v al) \<subseteq> insert (k, v) (set al)"
  by (induction al) auto

lemma distinct_values_update:
  "distinct (map snd al) \<Longrightarrow> v \<notin> snd ` set al \<Longrightarrow> distinct (map snd (AList.update k v al))"
proof (induction al)
  case Nil
  then show ?case by simp
next
  case (Cons a al)
  have sub: "snd ` set (AList.update k v al) \<subseteq> insert v (snd ` set al)"
    using set_update_subset[of k v al] by force
  show ?case
  proof (cases "fst a = k")
    case True
    with Cons.prems show ?thesis by auto
  next
    case False
    with Cons sub show ?thesis by auto
  qed
qed

lemma distinct_values_delete:
  "distinct (map snd al) \<Longrightarrow> distinct (map snd (AList.delete k al))"
  by (simp add: AList.delete_eq distinct_map_filter)

lemma set_delete: "set (AList.delete k al) = {x \<in> set al. fst x \<noteq> k}"
  by (auto simp: AList.delete_eq)

lemma manager_ok_initial: "manager_ok initial_manager"
  by (simp add: manager_ok_def initial_manager_def)

lemma register_fields:
  "windowIdMap (snd (register w m)) =
     AList.update (bw_id w) (fst (register w m)) (windowIdMap m) \<and>
   windows (snd (register w m)) = windows_set (bw_id w) (windows m) \<and>
   fst (register w m) =
     (if mainWindowId m = None then ''main'' else ''window-'' @ decimal (nextSecondaryId m)) \<and>
   mainWindowId (snd (register w m)) =
     (if mainWindowId m = None then Some (bw_id w) else mainWindowId m) \<and>
   nextSecondaryId (snd (register w m)) =
     (if mainWindowId m = None then nextSecondaryId m else nextSecondaryId m + 1)"
  by (simp add: register_def Let_def)

lemma manager_ok_register:
  assumes ok: "manager_ok m"
  shows "manager_ok (snd (register w m))"
proof -
  let ?m' = "snd (register w m)" and ?sid = "fst (register w m)" and ?e = "bw_id w"
  note f = register_fields[of w m]
  from ok have dk: "distinct (map fst (windowIdMap m))" and dv: "distinct (map snd (windowIdMap m))"
    and ent: "\<And>k sid. (k, sid) \<in> set (windowIdMap m) \<Longrightarrow>
          (sid = ''main'' \<and> mainWindowId m = Some k) \<or> secondary_below (nextSecondaryId m) sid"
    and ws: "set (windows m) \<subseteq> set (map fst (windowIdMap m))"
    and two: "2 \<le> nextSecondaryId m"
    by (auto simp: manager_ok_def)
  have fresh: "?sid \<notin> snd ` set (windowIdMap m)"
  proof
    assume "?sid \<in> snd ` set (windowIdMap m)"
    then obtain k where k: "(k, ?sid) \<in> set (windowIdMap m)" by force
    show False
    proof (cases "mainWindowId m = None")
      case True
      then have "?sid = ''main''" using f by simp
      with ent[OF k] True secondary_below_not_main show False by auto
    next
      case False
      then have s: "?sid = ''window-'' @ decimal (nextSecondaryId m)" using f by simp
      with ent[OF k] secondary_below_fresh[of "nextSecondaryId m" ?sid] show False by auto
    qed
  qed
  have 1: "distinct (map fst (windowIdMap ?m'))" using f dk by (simp add: AList.distinct_update)
  have 2: "distinct (map snd (windowIdMap ?m'))"
    using f distinct_values_update[OF dv fresh, of ?e] by simp
  have 3: "(sid = ''main'' \<and> mainWindowId ?m' = Some k) \<or> secondary_below (nextSecondaryId ?m') sid"
    if "(k, sid) \<in> set (windowIdMap ?m')" for k sid
  proof -
    from that f set_update_subset[of ?e ?sid "windowIdMap m"]
    have "(k, sid) = (?e, ?sid) \<or> (k, sid) \<in> set (windowIdMap m)" by auto
    then show ?thesis
    proof
      assume new: "(k, sid) = (?e, ?sid)"
      show ?thesis
      proof (cases "mainWindowId m = None")
        case True
        with new f show ?thesis by simp
      next
        case False
        with new f two have "secondary_below (nextSecondaryId ?m') sid"
          by (auto simp: secondary_below_def)
        then show ?thesis ..
      qed
    next
      assume old: "(k, sid) \<in> set (windowIdMap m)"
      from ent[OF old] show ?thesis
      proof
        assume a: "sid = ''main'' \<and> mainWindowId m = Some k"
        then show ?thesis using f by simp
      next
        assume "secondary_below (nextSecondaryId m) sid"
        then have "secondary_below (nextSecondaryId ?m') sid"
          using f by (auto intro: secondary_below_mono)
        then show ?thesis ..
      qed
    qed
  qed
  have 4: "set (windows ?m') \<subseteq> set (map fst (windowIdMap ?m'))"
    using f ws by (auto simp: windows_set_def AList.update_keys)
  have 5: "mainWindowId ?m' \<noteq> None" using f by simp
  have 6: "2 \<le> nextSecondaryId ?m'" using f two by simp
  from 1 2 3 4 5 6 show ?thesis unfolding manager_ok_def by blast
qed

lemma closed_fields:
  "windowIdMap (closed_bookkeeping e m) = AList.delete e (windowIdMap m) \<and>
   windows (closed_bookkeeping e m) = removeAll e (windows m) \<and>
   nextSecondaryId (closed_bookkeeping e m) = nextSecondaryId m \<and>
   mainWindowId (closed_bookkeeping e m) =
     (if mainWindowId m = Some e
      then (case removeAll e (windows m) of [] \<Rightarrow> None | k # ks \<Rightarrow> Some k)
      else mainWindowId m)"
  by (simp add: closed_bookkeeping_def Let_def)

lemma manager_ok_closed:
  assumes ok: "manager_ok m"
  shows "manager_ok (closed_bookkeeping e m)"
proof -
  let ?m' = "closed_bookkeeping e m"
  note f = closed_fields[of e m]
  from ok have dk: "distinct (map fst (windowIdMap m))" and dv: "distinct (map snd (windowIdMap m))"
    and ent: "\<And>k sid. (k, sid) \<in> set (windowIdMap m) \<Longrightarrow>
          (sid = ''main'' \<and> mainWindowId m = Some k) \<or> secondary_below (nextSecondaryId m) sid"
    and ws: "set (windows m) \<subseteq> set (map fst (windowIdMap m))"
    and none: "mainWindowId m = None \<Longrightarrow> windows m = []"
    and two: "2 \<le> nextSecondaryId m"
    by (auto simp: manager_ok_def)
  have 1: "distinct (map fst (windowIdMap ?m'))" using f dk by (simp add: AList.distinct_delete)
  have 2: "distinct (map snd (windowIdMap ?m'))" using f dv by (simp add: distinct_values_delete)
  have 3: "(sid = ''main'' \<and> mainWindowId ?m' = Some k) \<or> secondary_below (nextSecondaryId ?m') sid"
    if "(k, sid) \<in> set (windowIdMap ?m')" for k sid
  proof -
    from that f have old: "(k, sid) \<in> set (windowIdMap m)" and ne: "k \<noteq> e"
      by (auto simp: set_delete)
    from ent[OF old] show ?thesis
    proof
      assume "sid = ''main'' \<and> mainWindowId m = Some k"
      with ne f show ?thesis by simp
    next
      assume "secondary_below (nextSecondaryId m) sid"
      with f show ?thesis by simp
    qed
  qed
  have 4: "set (windows ?m') \<subseteq> set (map fst (windowIdMap ?m'))"
    using f ws by (auto simp: AList.delete_keys)
  have 5: "windows ?m' = []" if "mainWindowId ?m' = None"
  proof (cases "mainWindowId m = Some e")
    case True
    with that f show ?thesis by (simp split: list.splits)
  next
    case False
    with that f have "mainWindowId m = None" by simp
    with none f show ?thesis by simp
  qed
  have 6: "2 \<le> nextSecondaryId ?m'" using f two by simp
  from 1 2 3 4 5 6 show ?thesis unfolding manager_ok_def by blast
qed

lemma manager_ok_unregister: "manager_ok m \<Longrightarrow> manager_ok (unregister w m)"
  by (auto simp: manager_ok_def unregister_def Let_def)

lemma manager_ok_focus: "manager_ok m \<Longrightarrow> manager_ok (on_focus k m)"
  by (simp add: manager_ok_def on_focus_def)

lemma manager_ok_exec: "manager_ok (fst ms) \<Longrightarrow> manager_ok (fst (app_exec x ms))"
  by (cases x; cases ms)
     (simp_all add: manager_ok_register manager_ok_closed manager_ok_unregister manager_ok_focus
        on_closed_def)

lemma manager_ok_run: "manager_ok (fst ms) \<Longrightarrow> manager_ok (fst (app_run ops ms))"
  by (induction ops arbitrary: ms) (auto simp: manager_ok_exec)

lemma app_exec_next_mono: "nextSecondaryId m \<le> nextSecondaryId (fst (app_exec x (m, s)))"
  by (cases x)
     (simp_all add: register_fields on_focus_def on_closed_def closed_fields unregister_def Let_def)

lemma app_run_next_mono: "nextSecondaryId m \<le> nextSecondaryId (fst (app_run ops (m, s)))"
proof (induction ops arbitrary: m s)
  case Nil
  then show ?case by simp
next
  case (Cons x ops)
  obtain m' s' where e: "app_exec x (m, s) = (m', s')" by (cases "app_exec x (m, s)")
  from app_exec_next_mono[of m x s] e have "nextSecondaryId m \<le> nextSecondaryId m'" by simp
  also have "\<dots> \<le> nextSecondaryId (fst (app_run ops (m', s')))" by (rule Cons.IH)
  finally show ?case using e by simp
qed

lemma stable_ids_secondary:
  "filter (\<lambda>sid. sid \<noteq> ''main'') (stable_ids ops (m, s)) =
     map (\<lambda>k. ''window-'' @ decimal k)
       [nextSecondaryId m ..< nextSecondaryId (fst (app_run ops (m, s)))]"
proof (induction ops arbitrary: m s)
  case Nil
  then show ?case by simp
next
  case (Cons x ops)
  show ?case
  proof (cases x)
    case (Register w)
    let ?m' = "snd (register w m)"
    note f = register_fields[of w m]
    show ?thesis
    proof (cases "mainWindowId m = None")
      case True
      with f Register Cons.IH[of ?m' s] show ?thesis by simp
    next
      case False
      have le: "nextSecondaryId m + 1 \<le> nextSecondaryId (fst (app_run ops (?m', s)))"
        using app_run_next_mono[of ?m' ops s] f False by simp
      then have "[nextSecondaryId m ..< nextSecondaryId (fst (app_run ops (?m', s)))] =
            nextSecondaryId m # [nextSecondaryId m + 1 ..< nextSecondaryId (fst (app_run ops (?m', s)))]"
        by (simp add: upt_conv_Cons)
      with f False Register Cons.IH[of ?m' s] show ?thesis by simp
    qed
  next
    case (Focus k)
    with Cons.IH[of "on_focus k m" s] show ?thesis by (simp add: on_focus_def)
  next
    case (Closed k)
    with Cons.IH[of "closed_bookkeeping k m" "cleanupWindowSubscriptions k s"] show ?thesis
      by (simp add: on_closed_def closed_fields)
  next
    case (Unregister w)
    with Cons.IH[of "unregister w m" s] show ?thesis by (simp add: unregister_def Let_def)
  next
    case (Bridge b)
    with Cons.IH[of m "exec b s"] show ?thesis by simp
  qed
qed

lemma first_stable_id_main:
  "mainWindowId m = None \<Longrightarrow>
     stable_ids ops (m, s) = [] \<or> hd (stable_ids ops (m, s)) = ''main''"
proof (induction ops arbitrary: m s)
  case Nil
  then show ?case by simp
next
  case (Cons x ops)
  show ?case
  proof (cases x)
    case (Register w)
    with Cons.prems show ?thesis by (simp add: register_fields)
  next
    case (Focus k)
    with Cons.prems Cons.IH[of "on_focus k m" s] show ?thesis by (simp add: on_focus_def)
  next
    case (Closed k)
    with Cons.prems Cons.IH[of "closed_bookkeeping k m" "cleanupWindowSubscriptions k s"]
    show ?thesis by (simp add: on_closed_def closed_fields)
  next
    case (Unregister w)
    with Cons.prems Cons.IH[of "unregister w m" s] show ?thesis
      by (simp add: unregister_def Let_def)
  next
    case (Bridge b)
    with Cons.prems Cons.IH[of m "exec b s"] show ?thesis by simp
  qed
qed

lemma decimal_2: "decimal 2 = ''2''"
  by (simp add: decimal.simps[of 2] digit_char_def)
lemma decimal_3: "decimal 3 = ''3''"
  by (simp add: decimal.simps[of 3] digit_char_def)

lemma open_close_reopen_ids:
  "stable_ids open_close_reopen (initial_manager, initial_world []) =
     [''main'', ''window-2'', ''window-3'', ''main'']"
  by (simp add: open_close_reopen_def initial_manager_def register_def Let_def windows_set_def
      on_closed_def closed_bookkeeping_def winA_def winB_def winC_def winD_def decimal_2 decimal_3)

lemma open_close_reopen_final:
  "fst (app_run open_close_reopen (initial_manager, initial_world [])) =
     \<lparr>windows = [4], focusedWindowId = Some 4, mainWindowId = Some 4,
      windowIdMap = [(4, ''main'')], nextSecondaryId = 4\<rparr>"
  by (simp add: open_close_reopen_def initial_manager_def register_def Let_def windows_set_def
      on_closed_def closed_bookkeeping_def winA_def winB_def winC_def winD_def decimal_2 decimal_3)

lemma tracked_keys_exec:
  assumes "\<not> is_unregister x"
      and "set (windows (fst ms)) = set (map fst (windowIdMap (fst ms)))"
  shows "set (windows (fst (app_exec x ms))) = set (map fst (windowIdMap (fst (app_exec x ms))))"
proof (cases ms)
  case (Pair m s)
  show ?thesis
  proof (cases x)
    case (Register w)
    with Pair assms(2) register_fields[of w m] show ?thesis
      by (auto simp: windows_set_def AList.update_keys)
  next
    case (Focus k)
    with Pair assms(2) show ?thesis by (simp add: on_focus_def)
  next
    case (Closed k)
    with Pair assms(2) closed_fields[of k m] show ?thesis
      by (simp add: on_closed_def AList.delete_keys)
  next
    case (Unregister w)
    with assms(1) show ?thesis by simp
  next
    case (Bridge b)
    with Pair assms(2) show ?thesis by simp
  qed
qed

lemma tracked_keys_run:
  "list_all (\<lambda>x. \<not> is_unregister x) ops \<Longrightarrow>
   set (windows (fst ms)) = set (map fst (windowIdMap (fst ms))) \<Longrightarrow>
   set (windows (fst (app_run ops ms))) = set (map fst (windowIdMap (fst (app_run ops ms))))"
  by (induction ops arbitrary: ms) (auto simp: tracked_keys_exec)

lemma unregister_then_close_final:
  "fst (app_run unregister_then_close (initial_manager, initial_world [])) =
     \<lparr>windows = [], focusedWindowId = None, mainWindowId = None,
      windowIdMap = [(2, ''window-2'')], nextSecondaryId = 3\<rparr>"
  by (simp add: unregister_then_close_def initial_manager_def register_def Let_def windows_set_def
      on_closed_def closed_bookkeeping_def unregister_def winA_def winB_def decimal_2)

section \<open>Claims about the window manager\<close>

text \<open>
  C10, as stated, fails at its last part. Windows 1 and 2 are registered (\<^verbatim>\<open>main\<close> and
  \<^verbatim>\<open>window-2\<close>), window 2 is unregistered and window 1 closes. Window 2 has not closed and
  still holds \<^verbatim>\<open>window-2\<close> in the id map, yet the next registration is given \<^verbatim>\<open>main\<close>.
\<close>

theorem main_reassigned_while_unregistered_window_is_open:
  "Closed 2 \<notin> set unregister_then_close \<and>
   windowIdMap (fst (app_run unregister_then_close (initial_manager, initial_world []))) =
     [(2, ''window-2'')] \<and>
   fst (register winC (fst (app_run unregister_then_close (initial_manager, initial_world [])))) =
     ''main''"
  by (simp add: unregister_then_close_final register_def Let_def)
     (simp add: unregister_then_close_def)

text \<open>
  C10, amended. Along every run of the application from the initial manager: the first
  stable id handed out is \<^verbatim>\<open>main\<close>; the other ids handed out that are not \<^verbatim>\<open>main\<close> are
  \<^verbatim>\<open>window-2\<close>, \<^verbatim>\<open>window-3\<close>, ... in this order, one per value of the counter, which starts
  at 2 and only grows. In every state reached, a registration returns \<^verbatim>\<open>main\<close> when the
  manager has no main window and \<^verbatim>\<open>window-k\<close> for the current counter \<open>k\<close> otherwise,
  advancing the counter; it stores the window and the id it returns, and
  \<^verbatim>\<open>getStableId\<close> gives that id back. While the manager tracks a window, every registration
  is given a \<^verbatim>\<open>window-k\<close>. At every moment the stable ids of the registered windows are
  pairwise different. A registration is given \<^verbatim>\<open>main\<close> only when the manager's window
  map is empty: every registered window has closed or has been unregistered; in a run
  that never calls \<^verbatim>\<open>unregister\<close>, every registered window has closed.
\<close>

theorem stable_ids_assigned_uniquely:
  assumes "ms = app_run ops (initial_manager, s)"
  shows "distinct (map fst (windowIdMap (fst ms))) \<and>
         distinct (map snd (windowIdMap (fst ms))) \<and>
         set (windows (fst ms)) \<subseteq> set (map fst (windowIdMap (fst ms))) \<and>
         (stable_ids ops (initial_manager, s) \<noteq> [] \<longrightarrow>
            hd (stable_ids ops (initial_manager, s)) = ''main'') \<and>
         filter (\<lambda>sid. sid \<noteq> ''main'') (stable_ids ops (initial_manager, s)) =
           map (\<lambda>k. ''window-'' @ decimal k) [2 ..< nextSecondaryId (fst ms)] \<and>
         fst (register w (fst ms)) =
           (if mainWindowId (fst ms) = None then ''main''
            else ''window-'' @ decimal (nextSecondaryId (fst ms))) \<and>
         nextSecondaryId (snd (register w (fst ms))) =
           (if mainWindowId (fst ms) = None then nextSecondaryId (fst ms)
            else nextSecondaryId (fst ms) + 1) \<and>
         map_of (windowIdMap (snd (register w (fst ms)))) (bw_id w) = Some (fst (register w (fst ms))) \<and>
         getStableId w (snd (register w (fst ms))) = fst (register w (fst ms)) \<and>
         bw_id w \<in> set (windows (snd (register w (fst ms)))) \<and>
         (windows (fst ms) \<noteq> [] \<longrightarrow>
            fst (register w (fst ms)) = ''window-'' @ decimal (nextSecondaryId (fst ms))) \<and>
         (fst (register w (fst ms)) = ''main'' \<longrightarrow> windows (fst ms) = []) \<and>
         (list_all (\<lambda>x. \<not> is_unregister x) ops \<and> fst (register w (fst ms)) = ''main'' \<longrightarrow>
            windowIdMap (fst ms) = [])"
proof -
  let ?m = "fst ms"
  note f = register_fields[of w ?m]
  have ok: "manager_ok ?m"
    using assms manager_ok_run[of "(initial_manager, s)" ops] manager_ok_initial by simp
  have a: "stable_ids ops (initial_manager, s) \<noteq> [] \<longrightarrow>
            hd (stable_ids ops (initial_manager, s)) = ''main''"
    using first_stable_id_main[of initial_manager ops s] by (auto simp: initial_manager_def)
  have b: "filter (\<lambda>sid. sid \<noteq> ''main'') (stable_ids ops (initial_manager, s)) =
           map (\<lambda>k. ''window-'' @ decimal k) [2 ..< nextSecondaryId ?m]"
    using stable_ids_secondary[of ops initial_manager s] assms by (simp add: initial_manager_def)
  have main_none: "mainWindowId ?m = None" if "fst (register w ?m) = ''main''"
    using that f by (auto split: if_splits)
  have c: "windows ?m = []" if "fst (register w ?m) = ''main''"
    using main_none[OF that] ok by (simp add: manager_ok_def)
  have d: "fst (register w ?m) = ''window-'' @ decimal (nextSecondaryId ?m)" if "windows ?m \<noteq> []"
  proof -
    from that ok have "mainWindowId ?m \<noteq> None" by (auto simp: manager_ok_def)
    with f show ?thesis by simp
  qed
  have stored: "map_of (windowIdMap (snd (register w ?m))) (bw_id w) = Some (fst (register w ?m))"
    using f by (simp add: AList.update_conv')
  then have g: "getStableId w (snd (register w ?m)) = fst (register w ?m)"
    by (simp add: getStableId_def)
  have tracked: "bw_id w \<in> set (windows (snd (register w ?m)))"
    using f by (simp add: windows_set_def)
  have e: "windowIdMap ?m = []"
    if "list_all (\<lambda>x. \<not> is_unregister x) ops" and "fst (register w ?m) = ''main''"
  proof -
    have "set (windows ?m) = set (map fst (windowIdMap ?m))"
      using tracked_keys_run[OF that(1), of "(initial_manager, s)"] assms
      by (simp add: initial_manager_def)
    with c[OF that(2)] show ?thesis by simp
  qed
  have inv: "distinct (map fst (windowIdMap ?m)) \<and> distinct (map snd (windowIdMap ?m)) \<and>
         set (windows ?m) \<subseteq> set (map fst (windowIdMap ?m))"
    using ok by (simp add: manager_ok_def)
  from inv a b f c d stored g tracked e show ?thesis by blast
qed

theorem stable_ids_assigned_uniquely_witness:
  "stable_ids open_close_reopen (initial_manager, initial_world []) =
     [''main'', ''window-2'', ''window-3'', ''main''] \<and>
   windowIdMap (fst (app_run open_close_reopen (initial_manager, initial_world []))) = [(4, ''main'')] \<and>
   distinct (map snd (windowIdMap (fst (app_run open_close_reopen (initial_manager, initial_world []))))) \<and>
   filter (\<lambda>sid. sid \<noteq> ''main'') (stable_ids open_close_reopen (initial_manager, initial_world [])) =
     map (\<lambda>k. ''window-'' @ decimal k) [2 ..< 4] \<and>
   fst (register winA (fst (app_run open_close_reopen (initial_manager, initial_world [])))) =
     ''window-'' @ decimal 4 \<and>
   getStableId winA (snd (register winA
      (fst (app_run open_close_reopen (initial_manager, initial_world []))))) = ''window-'' @ decimal 4"
proof -
  note t = stable_ids_assigned_uniquely[OF refl, of open_close_reopen "initial_world []" winA]
  have w: "windows (fst (app_run open_close_reopen (initial_manager, initial_world []))) \<noteq> []"
    by (simp add: open_close_reopen_final)
  from t w have c1: "fst (register winA (fst (app_run open_close_reopen (initial_manager, initial_world [])))) =
     ''window-'' @ decimal 4"
    by (simp add: open_close_reopen_final)
  from t c1 have c2: "getStableId winA (snd (register winA
      (fst (app_run open_close_reopen (initial_manager, initial_world []))))) = ''window-'' @ decimal 4"
    by simp
  from t have c3: "filter (\<lambda>sid. sid \<noteq> ''main'') (stable_ids open_close_reopen (initial_manager, initial_world [])) =
     map (\<lambda>k. ''window-'' @ decimal k) [2 ..< 4]"
    by (simp add: open_close_reopen_final)
  from t have c4: "distinct (map snd (windowIdMap (fst (app_run open_close_reopen (initial_manager, initial_world [])))))"
    by blast
  from c1 c2 c3 c4 show ?thesis
    by (simp add: open_close_reopen_ids open_close_reopen_final)
qed

section \<open>Facts about the theme loader's path check\<close>

lemma isAllowedPath_prefix:
  "isAllowedPath home themePath =
     list_ex (\<lambda>(allowedDir, source). prefix (normalize allowedDir) (normalize themePath))
       (EXTENSION_PATHS home)"
proof -
  have "prefix (a @ sep) b \<or> prefix a b \<longleftrightarrow> prefix a b" for a b :: string
    using append_prefixD by blast
  then show ?thesis by (simp add: isAllowedPath_def Let_def)
qed

lemma extension_paths_of_user:
  "EXTENSION_PATHS ''/home/user'' =
     [(''/home/user/.vscode/extensions'', VSCode),
      (''/home/user/.vscode-insiders/extensions'', VSCodeInsiders),
      (''/home/user/.cursor/extensions'', Cursor),
      (''/home/user/.windsurf/extensions'', Windsurf)]"
  by (simp add: EXTENSION_PATHS_def path_join_def normalize_def Let_def)

lemma normalize_evil_theme: "normalize evil_theme = evil_theme"
  by (simp add: evil_theme_def normalize_def Let_def)

lemma evil_theme_not_under_allowed:
  "\<not> list_ex (\<lambda>(allowedDir, source). resides_under allowedDir evil_theme)
        (EXTENSION_PATHS ''/home/user'')"
  by (simp add: extension_paths_of_user resides_under_def path_segments_def evil_theme_def
      normalize_def Let_def)

lemma evil_theme_allowed: "isAllowedPath ''/home/user'' evil_theme"
  unfolding isAllowedPath_prefix extension_paths_of_user normalize_evil_theme
  by (simp add: evil_theme_def normalize_def Let_def)

section \<open>Claims about the theme loader's path check\<close>

text \<open>
  C8. The check of the vscode:load-theme handler accepts a path exactly when the
  normalized text of one of the four extensions directories is a string prefix of the
  normalized text of the requested path; nothing but the two strings is looked at. So a
  path outside every allowed directory can pass: with home directory \<^verbatim>\<open>/home/user\<close>, the
  path \<^verbatim>\<open>/home/user/.vscode/extensions-evil/theme.json\<close> lies under none of the four
  directories, yet the check accepts it and the handler goes on to load it.
\<close>

theorem theme_path_check_is_string_prefix:
  "isAllowedPath home themePath =
     list_ex (\<lambda>(allowedDir, source). prefix (normalize allowedDir) (normalize themePath))
       (EXTENSION_PATHS home) \<and>
   isAllowedPath ''/home/user'' evil_theme \<and>
   load_theme_guard ''/home/user'' evil_theme = Inr evil_theme \<and>
   \<not> list_ex (\<lambda>(allowedDir, source). resides_under allowedDir evil_theme)
        (EXTENSION_PATHS ''/home/user'')"
  using isAllowedPath_prefix[of home themePath] evil_theme_allowed evil_theme_not_under_allowed
    normalize_evil_theme
  by (simp add: load_theme_guard_def)

theorem theme_path_check_is_string_prefix_witness:
  "isAllowedPath ''/home/user'' ''/home/user/.cursor/extensions/x/theme.json'' \<and>
   \<not> isAllowedPath ''/home/user'' ''/home/user/.vscode/extensions/../../.ssh/id_rsa'' \<and>
   isAllowedPath ''/home/user'' ''/home/user/.vscode/extensions-evil/theme.json''"
proof -
  note inside = theme_path_check_is_string_prefix[of "''/home/user''"
      "''/home/user/.cursor/extensions/x/theme.json''"]
  note climbing = theme_path_check_is_string_prefix[of "''/home/user''"
      "''/home/user/.vscode/extensions/../../.ssh/id_rsa''"]
  from inside have a: "isAllowedPath ''/home/user'' ''/home/user/.cursor/extensions/x/theme.json''"
    unfolding extension_paths_of_user by (simp add: normalize_def Let_def)
  from climbing have b: "\<not> isAllowedPath ''/home/user'' ''/home/user/.vscode/extensions/../../.ssh/id_rsa''"
    unfolding extension_paths_of_user by (simp add: normalize_def Let_def)
  from inside have c: "isAllowedPath ''/home/user'' ''/home/user/.vscode/extensions-evil/theme.json''"
    by (simp add: evil_theme_def)
  from a b c show ?thesis by blast
qed

end
